theory Spec2Isabelle
  imports Main "HOL-Library.Multiset" "HOL-Library.Sublist" "HOL-Library.Char_ord"
begin

section \<open>Python values and dictionaries\<close>

text \<open>
  The scripts read JSON documents and keep their state in Python dictionaries.
  An exception that a script does not catch ends the call; it is the \<open>Inl\<close> side of the
  result of the function that raises it.
\<close>

datatype py_error = KeyError | TypeError | ValueError | SourceError

text \<open>
  One key of a JSON object: the key may be absent, hold \<open>null\<close>, or hold a value.
  \<open>dict_get\<close> is \<^verbatim>\<open>e.get(k)\<close>, \<open>dict_get_default\<close> is \<^verbatim>\<open>e.get(k, d)\<close>
  (the default replaces an absent key only, a stored \<open>null\<close> comes back as \<open>None\<close>),
  \<open>dict_item\<close> is \<^verbatim>\<open>e[k]\<close>, which raises on an absent key.
  Python's \<open>None\<close> is the \<open>None\<close> of \<open>option\<close>.
\<close>

datatype 'a field = Absent | Null | Val 'a

fun dict_get :: "'a field \<Rightarrow> 'a option" where
  "dict_get Absent = None"
| "dict_get Null = None"
| "dict_get (Val v) = Some v"

fun dict_get_default :: "'a field \<Rightarrow> 'a \<Rightarrow> 'a option" where
  "dict_get_default Absent d = Some d"
| "dict_get_default Null d = None"
| "dict_get_default (Val v) d = Some v"

fun dict_item :: "'a field \<Rightarrow> py_error + 'a option" where
  "dict_item Absent = Inl KeyError"
| "dict_item Null = Inr None"
| "dict_item (Val v) = Inr (Some v)"

text \<open>Truth value of a string or \<open>None\<close>: \<^verbatim>\<open>not x\<close> holds for \<open>None\<close> and for \<open>''\<close>.\<close>

fun truthy :: "string option \<Rightarrow> bool" where
  "truthy None = False"
| "truthy (Some s) = (s \<noteq> [])"

text \<open>
  A Python \<open>dict\<close> keeps its keys in insertion order, and the rankings below depend on
  that order, so a dictionary is an association list. \<open>dict_set\<close> is \<^verbatim>\<open>d[k] = v\<close>:
  an existing key keeps its place, a new key goes to the end. \<open>dict_lookup\<close> is the
  lookup behind \<^verbatim>\<open>d.get(k)\<close> and \<^verbatim>\<open>k in d\<close>.
\<close>

type_synonym 'v pydict = "(string \<times> 'v) list"

fun dict_set :: "string \<Rightarrow> 'v \<Rightarrow> 'v pydict \<Rightarrow> 'v pydict" where
  "dict_set k v [] = [(k, v)]"
| "dict_set k v (p # ps) = (if fst p = k then (k, v) # ps else p # dict_set k v ps)"

fun dict_lookup :: "'v pydict \<Rightarrow> string \<Rightarrow> 'v option" where
  "dict_lookup [] k = None"
| "dict_lookup (p # ps) k = (if fst p = k then Some (snd p) else dict_lookup ps k)"

definition dict_keys :: "'v pydict \<Rightarrow> string list" where
  "dict_keys d = map fst d"

definition dict_contains :: "'v pydict \<Rightarrow> string \<Rightarrow> bool" where
  "dict_contains d k = (k \<in> set (dict_keys d))"

text \<open>\<^verbatim>\<open>d[k]\<close> on a \<open>defaultdict\<close>: the stored value, or the factory's value for a new key.\<close>

definition dict_default :: "'v pydict \<Rightarrow> string \<Rightarrow> 'v \<Rightarrow> 'v" where
  "dict_default d k dflt = (case dict_lookup d k of None \<Rightarrow> dflt | Some v \<Rightarrow> v)"


section \<open>Play events and aggregation (analyze\_history.py)\<close>

text \<open>
  A raw streaming-history entry, with the keys the scripts read. The metadata keys hold
  strings or \<open>null\<close> in the export, \<open>ms_played\<close> holds an integer.
\<close>

record play_event =
  spotify_track_uri :: "string field"
  master_metadata_track_name :: "string field"
  master_metadata_album_artist_name :: "string field"
  master_metadata_album_album_name :: "string field"
  ms_played :: "int field"
  ts :: "string field"

text \<open>
  The per-track dictionary of \<open>aggregate_tracks\<close>. \<open>artist_name\<close> and \<open>album_name\<close> come
  from \<^verbatim>\<open>e.get(k, '')\<close> and so may be \<open>None\<close> when the entry stores \<open>null\<close>.
\<close>

record track_stat =
  track_name :: string
  artist_name :: "string option"
  album_name :: "string option"
  play_count :: int
  total_ms :: int

definition new_track :: track_stat where
  "new_track = \<lparr>track_name = [], artist_name = Some [], album_name = Some [],
                play_count = 0, total_ms = 0\<rparr>"

text \<open>The body of the loop of \<open>aggregate_tracks\<close> (lines 54 to 66) for one entry.\<close>

definition track_step :: "int \<Rightarrow> play_event \<Rightarrow> track_stat pydict \<Rightarrow> py_error + track_stat pydict" where
  "track_step min_ms e tracks =
     (let uri = dict_get (spotify_track_uri e);
          name = dict_get (master_metadata_track_name e)
      in if \<not> truthy uri \<or> \<not> truthy name then Inr tracks
         else case (uri, name) of
           (Some u, Some nm) \<Rightarrow>
             (case dict_item (ms_played e) of
                Inl err \<Rightarrow> Inl err
              | Inr None \<Rightarrow> Inl TypeError
              | Inr (Some ms) \<Rightarrow>
                  if ms < min_ms then Inr tracks
                  else
                    let t = dict_default tracks u new_track
                    in Inr (dict_set u
                         (t\<lparr>track_name := nm,
                            artist_name := dict_get_default (master_metadata_album_artist_name e) [],
                            album_name := dict_get_default (master_metadata_album_album_name e) [],
                            play_count := play_count t + 1,
                            total_ms := total_ms t + ms\<rparr>) tracks))
         | _ \<Rightarrow> Inr tracks)"

fun track_loop :: "int \<Rightarrow> play_event list \<Rightarrow> track_stat pydict \<Rightarrow> py_error + track_stat pydict" where
  "track_loop min_ms [] tracks = Inr tracks"
| "track_loop min_ms (e # es) tracks =
     (case track_step min_ms e tracks of
        Inl err \<Rightarrow> Inl err
      | Inr tracks' \<Rightarrow> track_loop min_ms es tracks')"

definition aggregate_tracks :: "play_event list \<Rightarrow> int \<Rightarrow> py_error + track_stat pydict" where
  "aggregate_tracks entries min_ms = track_loop min_ms entries []"

text \<open>
  The per-artist dictionary of \<open>aggregate_artists\<close>; its keys \<open>play_count\<close>, \<open>total_ms\<close>
  and \<open>track_uris\<close> carry the prefix \<open>a_\<close> here.
\<close>

record artist_stat =
  a_play_count :: int
  a_total_ms :: int
  a_track_uris :: "string set"

definition new_artist :: artist_stat where
  "new_artist = \<lparr>a_play_count = 0, a_total_ms = 0, a_track_uris = {}\<rparr>"

text \<open>The body of the loop of \<open>aggregate_artists\<close> (lines 80 to 90) for one entry.\<close>

definition artist_step :: "int \<Rightarrow> play_event \<Rightarrow> artist_stat pydict \<Rightarrow> py_error + artist_stat pydict" where
  "artist_step min_ms e artists =
     (let artist = dict_get (master_metadata_album_artist_name e);
          uri = dict_get (spotify_track_uri e)
      in if \<not> truthy artist \<or> \<not> truthy uri then Inr artists
         else case (artist, uri) of
           (Some ar, Some u) \<Rightarrow>
             (case dict_item (ms_played e) of
                Inl err \<Rightarrow> Inl err
              | Inr None \<Rightarrow> Inl TypeError
              | Inr (Some ms) \<Rightarrow>
                  if ms < min_ms then Inr artists
                  else
                    let a = dict_default artists ar new_artist
                    in Inr (dict_set ar
                         (a\<lparr>a_play_count := a_play_count a + 1,
                            a_total_ms := a_total_ms a + ms,
                            a_track_uris := insert u (a_track_uris a)\<rparr>) artists))
         | _ \<Rightarrow> Inr artists)"

fun artist_loop :: "int \<Rightarrow> play_event list \<Rightarrow> artist_stat pydict \<Rightarrow> py_error + artist_stat pydict" where
  "artist_loop min_ms [] artists = Inr artists"
| "artist_loop min_ms (e # es) artists =
     (case artist_step min_ms e artists of
        Inl err \<Rightarrow> Inl err
      | Inr artists' \<Rightarrow> artist_loop min_ms es artists')"

definition aggregate_artists :: "play_event list \<Rightarrow> int \<Rightarrow> py_error + artist_stat pydict" where
  "aggregate_artists entries min_ms = artist_loop min_ms entries []"

text \<open>The sums of \<open>play_count\<close> over all entries of the two dictionaries.\<close>

definition track_plays :: "track_stat pydict \<Rightarrow> int" where
  "track_plays tracks = sum_list (map (\<lambda>p. play_count (snd p)) tracks)"

definition artist_plays :: "artist_stat pydict \<Rightarrow> int" where
  "artist_plays artists = sum_list (map (\<lambda>p. a_play_count (snd p)) artists)"

text \<open>
  What the specification calls a qualifying event: track URI and track name present
  and non-empty, and an integer \<open>ms_played\<close> of at least \<open>min_ms\<close>. \<open>artist_counted\<close> is
  the test \<open>aggregate_artists\<close> applies instead: artist name and track URI.
\<close>

definition long_enough :: "int \<Rightarrow> play_event \<Rightarrow> bool" where
  "long_enough min_ms e = (case ms_played e of Val ms \<Rightarrow> min_ms \<le> ms | _ \<Rightarrow> False)"

definition has_ms :: "play_event \<Rightarrow> bool" where
  "has_ms e = (case ms_played e of Val ms \<Rightarrow> True | _ \<Rightarrow> False)"

definition qualifying :: "int \<Rightarrow> play_event \<Rightarrow> bool" where
  "qualifying min_ms e =
     (truthy (dict_get (spotify_track_uri e)) \<and>
      truthy (dict_get (master_metadata_track_name e)) \<and> long_enough min_ms e)"

definition artist_counted :: "int \<Rightarrow> play_event \<Rightarrow> bool" where
  "artist_counted min_ms e =
     (truthy (dict_get (master_metadata_album_artist_name e)) \<and>
      truthy (dict_get (spotify_track_uri e)) \<and> long_enough min_ms e)"


section \<open>Ranking\<close>

text \<open>
  \<^verbatim>\<open>sorted(xs, key=k, reverse=True)\<close> with an integer key: Python's sort is stable also
  with \<open>reverse=True\<close>, so the result is in descending key order and entries with equal
  keys keep the order they have in \<open>xs\<close>. The model is the stable insertion sort on the
  negated key. \<open>py_enumerate xs start\<close> is \<^verbatim>\<open>enumerate(xs, start)\<close>.
\<close>

definition py_sorted_rev :: "('a \<Rightarrow> int) \<Rightarrow> 'a list \<Rightarrow> 'a list" where
  "py_sorted_rev key xs = sort_key (\<lambda>x. - key x) xs"

fun py_enumerate :: "'a list \<Rightarrow> int \<Rightarrow> (int \<times> 'a) list" where
  "py_enumerate [] start = []"
| "py_enumerate (x # xs) start = (start, x) # py_enumerate xs (start + 1)"

text \<open>The rankings of \<open>main\<close> by play count (lines 182 and 183).\<close>

definition top_tracks :: "track_stat pydict \<Rightarrow> (string \<times> track_stat) list" where
  "top_tracks tracks = py_sorted_rev (\<lambda>x. play_count (snd x)) tracks"

definition top_artists :: "artist_stat pydict \<Rightarrow> (string \<times> artist_stat) list" where
  "top_artists artists = py_sorted_rev (\<lambda>x. a_play_count (snd x)) artists"

text \<open>The ranking of the genre totals (line 219): \<open>genre_ms\<close> maps a genre to its milliseconds.\<close>

definition top_genres :: "int pydict \<Rightarrow> (string \<times> int) list" where
  "top_genres genre_ms = py_sorted_rev (\<lambda>x. snd x) genre_ms"

text \<open>
  The rows of a table: \<^verbatim>\<open>enumerate(ranking[:n], 1)\<close>, as in lines 193, 203, 224, 235 and
  246 (line 255 takes the whole ranking).
\<close>

definition ranked_rows :: "nat \<Rightarrow> 'a list \<Rightarrow> (int \<times> 'a) list" where
  "ranked_rows n ranking = py_enumerate (take n ranking) 1"


section \<open>Genre cache (analyze\_history.py)\<close>

text \<open>
  The cache maps an artist name to its list of tags. For the lookup the cache file is
  given by the document it holds (\<open>None\<close>: the file does not exist); the text of the
  file is the subject of a section of its own below. \<open>dumps\<close> counts the calls of
  \<open>save_genre_cache\<close>.
\<close>

type_synonym genre_cache = "string list pydict"

record filesystem =
  cache_file :: "genre_cache option"
  dumps :: nat

definition load_genre_cache :: "filesystem \<Rightarrow> genre_cache" where
  "load_genre_cache fs = (case cache_file fs of Some cache \<Rightarrow> cache | None \<Rightarrow> [])"

definition save_genre_cache :: "genre_cache \<Rightarrow> filesystem \<Rightarrow> filesystem" where
  "save_genre_cache cache fs = fs\<lparr>cache_file := Some cache, dumps := dumps fs + 1\<rparr>"


section \<open>Genre lookup (analyze\_history.py)\<close>

text \<open>
  What \<open>musicbrainzngs.search_artists\<close> hands back, as far as \<open>fetch_artist_genres\<close>
  reads it. A tag is a dictionary with the keys \<open>count\<close> and \<open>name\<close>. The \<open>count\<close> is
  absent (\<^verbatim>\<open>t.get('count', 0)\<close> is then \<open>0\<close>), a value that \<open>int\<close> converts, or
  a value on which \<open>int\<close> raises. The \<open>name\<close> is a string, or absent, and then
  \<^verbatim>\<open>t['name']\<close> raises.
\<close>

datatype count_value = NoCount | Count int | BadCount

record mb_tag =
  tag_count :: count_value
  tag_name :: "string option"

text \<open>An artist of the \<open>artist-list\<close>, with its \<open>tag-list\<close> when it has one.\<close>

record mb_artist =
  tag_list :: "mb_tag list option"

text \<open>
  One call of \<open>search_artists\<close> raises, or returns a dictionary, given here by its
  \<open>artist-list\<close> (\<open>None\<close> when the key is absent).
\<close>

datatype search_outcome = Raises | Returns "mb_artist list option"

text \<open>
  The tag source is outside the program: \<open>src k name\<close> is the outcome of request number
  \<open>k\<close> of an invocation (counting from 0) when it asks for \<open>name\<close>. Every sequence of
  outcomes is some \<open>src\<close>.
\<close>

type_synonym tag_source = "nat \<Rightarrow> string \<Rightarrow> search_outcome"

text \<open>The key of the sort in line 140, \<^verbatim>\<open>int(t.get('count', 0))\<close>.\<close>

fun tag_key :: "mb_tag \<Rightarrow> py_error + int" where
  "tag_key t = (case tag_count t of NoCount \<Rightarrow> Inr 0 | Count n \<Rightarrow> Inr n | BadCount \<Rightarrow> Inl ValueError)"

text \<open>\<open>sorted\<close> computes the key of every element before it sorts; the first key that raises ends it.\<close>

fun tag_keys :: "mb_tag list \<Rightarrow> py_error + int list" where
  "tag_keys [] = Inr []"
| "tag_keys (t # rest) =
     (case tag_key t of
        Inl err \<Rightarrow> Inl err
      | Inr k \<Rightarrow> (case tag_keys rest of Inl err \<Rightarrow> Inl err | Inr ks \<Rightarrow> Inr (k # ks)))"

text \<open>The comprehension of line 141, \<^verbatim>\<open>[t['name'] for t in ...]\<close>.\<close>

fun tag_names :: "mb_tag list \<Rightarrow> py_error + string list" where
  "tag_names [] = Inr []"
| "tag_names (t # rest) =
     (case tag_name t of
        None \<Rightarrow> Inl KeyError
      | Some n \<Rightarrow> (case tag_names rest of Inl err \<Rightarrow> Inl err | Inr ns \<Rightarrow> Inr (n # ns)))"

text \<open>Lines 140 and 141: the names of the first five tags in descending order of count.\<close>

definition top_tags :: "mb_tag list \<Rightarrow> py_error + string list" where
  "top_tags tags =
     (case tag_keys tags of
        Inl err \<Rightarrow> Inl err
      | Inr ks \<Rightarrow>
          let sorted_tags = map snd (py_sorted_rev fst (zip ks tags))
          in tag_names (take 5 sorted_tags))"

text \<open>
  The body of the \<open>try\<close> (lines 136 to 143) up to the assignment to the cache: the list
  to store, or the exception that the \<open>except\<close> clause catches.
\<close>

fun try_lookup :: "search_outcome \<Rightarrow> py_error + string list" where
  "try_lookup Raises = Inl SourceError"
| "try_lookup (Returns al) =
     (case (case al of None \<Rightarrow> [] | Some l \<Rightarrow> l) of
        [] \<Rightarrow> Inr []
      | a # rest \<Rightarrow> top_tags (case tag_list a of None \<Rightarrow> [] | Some tags \<Rightarrow> tags))"

text \<open>
  The state of one invocation: the cache dictionary, and the requests sent so far, each
  with the keys the cache had when it was sent. The log is not in the source; it is what
  the statements about requests speak of.
\<close>

record resolver =
  cache :: genre_cache
  requests :: "(string \<times> string list) list"

text \<open>One pass of the inner loop (lines 134 to 146) for \<open>name\<close>, with the \<open>failed\<close> list.\<close>

definition fetch_one :: "tag_source \<Rightarrow> string \<Rightarrow> resolver \<times> string list \<Rightarrow> resolver \<times> string list" where
  "fetch_one src name sf =
     (case sf of (st, failed) \<Rightarrow>
        let outcome = src (length (requests st)) name;
            st1 = st\<lparr>requests := requests st @ [(name, dict_keys (cache st))]\<rparr>
        in case try_lookup outcome of
             Inr tags \<Rightarrow> (st1\<lparr>cache := dict_set name tags (cache st1)\<rparr>, failed)
           | Inl err \<Rightarrow> (st1, failed @ [name]))"

fun fetch_names :: "tag_source \<Rightarrow> string list \<Rightarrow> resolver \<times> string list \<Rightarrow> resolver \<times> string list" where
  "fetch_names src [] sf = sf"
| "fetch_names src (name # rest) sf = fetch_names src rest (fetch_one src name sf)"

text \<open>
  The loop over \<open>attempt\<close> (lines 127 to 158) with \<open>rounds\<close> iterations left; it returns
  the state and the final \<open>to_fetch\<close>.
\<close>

fun attempts :: "tag_source \<Rightarrow> nat \<Rightarrow> string list \<Rightarrow> resolver \<Rightarrow> resolver \<times> string list" where
  "attempts src 0 to_fetch st = (st, to_fetch)"
| "attempts src (Suc rounds) to_fetch st =
     (if to_fetch = [] then (st, to_fetch)
      else case fetch_names src to_fetch (st, []) of
             (st', failed) \<Rightarrow> attempts src rounds failed st')"

text \<open>Lines 160 to 163: every name still in \<open>to_fetch\<close> is stored with the empty list.\<close>

definition give_up :: "string list \<Rightarrow> genre_cache \<Rightarrow> genre_cache" where
  "give_up to_fetch c = fold (\<lambda>name d. dict_set name [] d) to_fetch c"

text \<open>The comprehension of line 166.\<close>

definition result_dict :: "genre_cache \<Rightarrow> string list \<Rightarrow> genre_cache" where
  "result_dict c names = fold (\<lambda>name d. dict_set name (dict_default c name []) d) names []"

text \<open>
  What an invocation leaves behind: the dictionary it returns, the file system, and the
  log of requests.
\<close>

record resolution =
  returned :: genre_cache
  fs_after :: filesystem
  lookups :: "(string \<times> string list) list"

text \<open>\<open>range(1, max_retries + 1)\<close> has \<open>nat max_retries\<close> elements.\<close>

definition fetch_artist_genres :: "tag_source \<Rightarrow> filesystem \<Rightarrow> string list \<Rightarrow> int \<Rightarrow> resolution" where
  "fetch_artist_genres src fs artist_names max_retries =
     (let c0 = load_genre_cache fs;
          names = artist_names;
          to_fetch = filter (\<lambda>n. \<not> dict_contains c0 n) names
      in case attempts src (nat max_retries) to_fetch \<lparr>cache = c0, requests = []\<rparr> of
           (st, left) \<Rightarrow>
             let c1 = give_up left (cache st)
             in \<lparr>returned = result_dict c1 names,
                 fs_after = save_genre_cache c1 fs,
                 lookups = requests st\<rparr>)"


section \<open>Drum and bass selection (make\_playlists.py)\<close>

text \<open>
  \<open>make_playlists.py\<close> has its own \<open>aggregate_tracks\<close>, without the album name; its
  dictionary keys carry the prefix \<open>mp_\<close> here.
\<close>

record mp_track_stat =
  mp_track_name :: string
  mp_artist_name :: "string option"
  mp_play_count :: int
  mp_total_ms :: int

definition mp_new_track :: mp_track_stat where
  "mp_new_track = \<lparr>mp_track_name = [], mp_artist_name = Some [], mp_play_count = 0, mp_total_ms = 0\<rparr>"

definition mp_track_step :: "int \<Rightarrow> play_event \<Rightarrow> mp_track_stat pydict \<Rightarrow> py_error + mp_track_stat pydict" where
  "mp_track_step min_ms e tracks =
     (let uri = dict_get (spotify_track_uri e);
          name = dict_get (master_metadata_track_name e)
      in if \<not> truthy uri \<or> \<not> truthy name then Inr tracks
         else case (uri, name) of
           (Some u, Some nm) \<Rightarrow>
             (case dict_item (ms_played e) of
                Inl err \<Rightarrow> Inl err
              | Inr None \<Rightarrow> Inl TypeError
              | Inr (Some ms) \<Rightarrow>
                  if ms < min_ms then Inr tracks
                  else
                    let t = dict_default tracks u mp_new_track
                    in Inr (dict_set u
                         (t\<lparr>mp_track_name := nm,
                            mp_artist_name := dict_get_default (master_metadata_album_artist_name e) [],
                            mp_play_count := mp_play_count t + 1,
                            mp_total_ms := mp_total_ms t + ms\<rparr>) tracks))
         | _ \<Rightarrow> Inr tracks)"

fun mp_track_loop :: "int \<Rightarrow> play_event list \<Rightarrow> mp_track_stat pydict \<Rightarrow> py_error + mp_track_stat pydict" where
  "mp_track_loop min_ms [] tracks = Inr tracks"
| "mp_track_loop min_ms (e # es) tracks =
     (case mp_track_step min_ms e tracks of
        Inl err \<Rightarrow> Inl err
      | Inr tracks' \<Rightarrow> mp_track_loop min_ms es tracks')"

definition mp_aggregate_tracks :: "play_event list \<Rightarrow> int \<Rightarrow> py_error + mp_track_stat pydict" where
  "mp_aggregate_tracks entries min_ms = mp_track_loop min_ms entries []"

definition DNB_EXCLUDE :: "string set" where
  "DNB_EXCLUDE = {''Lane 8'', ''The Kite String Tangle'', ''BCee feat. Rocky Nti'', ''BCee''}"

text \<open>
  \<open>str.lower\<close> on the letters A to Z; every other character stays. \<open>in_str a b\<close> is
  \<^verbatim>\<open>a in b\<close> on strings.
\<close>

definition lower_char :: "char \<Rightarrow> char" where
  "lower_char c = (if CHR ''A'' \<le> c \<and> c \<le> CHR ''Z'' then char_of (of_char c + (32::nat)) else c)"

definition lower :: "string \<Rightarrow> string" where
  "lower s = map lower_char s"

definition in_str :: "string \<Rightarrow> string \<Rightarrow> bool" where
  "in_str a b = sublist a b"

text \<open>The test of line 89 and the loop of lines 88 to 91.\<close>

definition any_dnb :: "string list \<Rightarrow> bool" where
  "any_dnb genres = list_ex (\<lambda>g. in_str ''drum and bass'' (lower g)) genres"

fun dnb_loop :: "genre_cache \<Rightarrow> string set \<Rightarrow> string set" where
  "dnb_loop [] dnb_artists = dnb_artists"
| "dnb_loop ((artist, genres) # rest) dnb_artists =
     dnb_loop rest
       (if any_dnb genres
        then (if artist \<notin> DNB_EXCLUDE then insert artist dnb_artists else dnb_artists)
        else dnb_artists)"

text \<open>
  Lines 94 to 96. \<open>all_tracks\<close> has no key twice, so the dictionary comprehension of
  line 95 keeps the entries that pass the test, in their order. An \<open>artist_name\<close> that
  is \<open>None\<close> is in no set of strings.
\<close>

definition top_100_dnb :: "genre_cache \<Rightarrow> play_event list \<Rightarrow> py_error + (string \<times> mp_track_stat) list" where
  "top_100_dnb genre_cache entries =
     (let dnb_artists = dnb_loop genre_cache {}
      in case mp_aggregate_tracks entries 30000 of
           Inl err \<Rightarrow> Inl err
         | Inr all_tracks \<Rightarrow>
             let dnb_tracks = filter (\<lambda>(uri, t).
                    case mp_artist_name t of None \<Rightarrow> False | Some a \<Rightarrow> a \<in> dnb_artists) all_tracks
             in Inr (take 100 (py_sorted_rev (\<lambda>x. mp_play_count (snd x)) dnb_tracks)))"


section \<open>The cache file as text (analyze\_history.py, lines 98 to 107)\<close>

text \<open>
  The statements about the lookup use the cache file by the document it holds. Here
  follows what \<open>load_genre_cache\<close> and \<open>save_genre_cache\<close> do to the file itself:
  \<open>json.dump\<close> with \<open>ensure_ascii=False\<close> and \<open>indent=2\<close>, a file opened with
  \<open>encoding='utf-8'\<close>, and \<open>json.load\<close>. These are functions of Python's standard library;
  the definitions follow their behaviour on the values the program hands them.

  A Python string is given by the bytes of its UTF-8 encoding, as everywhere in this
  theory. A surrogate code point (U+D800 to U+DFFF), which a Python string may hold and
  which UTF-8 proper refuses, is given by the three bytes the same scheme yields for it
  (\<open>ED A0 80\<close> for U+D800). The exceptions of this section are those of the file and of
  the codec.
\<close>

datatype io_error = UnicodeEncodeError | UnicodeDecodeError | JSONDecodeError | NotModelled | NoFuel

abbreviation byte :: "char \<Rightarrow> nat" where
  "byte c \<equiv> of_char c"

text \<open>
  The strict UTF-8 of the file. \<open>utf8_width s\<close> is the number of bytes of the code point
  that \<open>s\<close> starts with, and 0 when \<open>s\<close> does not start with one: an overlong form, a
  surrogate, a value beyond U+10FFFF and a stray or missing continuation byte are all
  refused, as Python's \<open>utf-8\<close> codec refuses them. Writing a string that is not
  \<open>utf8_valid\<close> raises \<open>UnicodeEncodeError\<close>, reading such bytes raises
  \<open>UnicodeDecodeError\<close>.
\<close>

definition cont :: "char \<Rightarrow> bool" where
  "cont c = (0x80 \<le> byte c \<and> byte c \<le> 0xBF)"

fun width2 :: "string \<Rightarrow> nat" where
  "width2 (b # r) = (if cont b then 2 else 0)"
| "width2 [] = 0"

fun width3 :: "char \<Rightarrow> string \<Rightarrow> nat" where
  "width3 a (b # c # r) =
     (if cont b \<and> cont c \<and> (if byte a = 0xE0 then 0xA0 \<le> byte b else True)
         \<and> (if byte a = 0xED then byte b \<le> 0x9F else True)
      then 3 else 0)"
| "width3 a [b] = 0"
| "width3 a [] = 0"

fun width4 :: "char \<Rightarrow> string \<Rightarrow> nat" where
  "width4 a (b # c # d # r) =
     (if cont b \<and> cont c \<and> cont d \<and> (if byte a = 0xF0 then 0x90 \<le> byte b else True)
         \<and> (if byte a = 0xF4 then byte b \<le> 0x8F else True)
      then 4 else 0)"
| "width4 a [b, c] = 0"
| "width4 a [b] = 0"
| "width4 a [] = 0"

fun utf8_width :: "string \<Rightarrow> nat" where
  "utf8_width [] = 0"
| "utf8_width (a # r) =
     (if byte a < 0x80 then 1
      else if 0xC2 \<le> byte a \<and> byte a \<le> 0xDF then width2 r
      else if 0xE0 \<le> byte a \<and> byte a \<le> 0xEF then width3 a r
      else if 0xF0 \<le> byte a \<and> byte a \<le> 0xF4 then width4 a r
      else 0)"

fun utf8_valid :: "string \<Rightarrow> bool" where
  "utf8_valid [] = True"
| "utf8_valid (a # s) =
     (if utf8_width (a # s) = 0 then False else utf8_valid (drop (utf8_width (a # s)) (a # s)))"

definition write_text :: "string \<Rightarrow> io_error + string" where
  "write_text text = (if utf8_valid text then Inr text else Inl UnicodeEncodeError)"

definition read_text :: "string \<Rightarrow> io_error + string" where
  "read_text bytes = (if utf8_valid bytes then Inr bytes else Inl UnicodeDecodeError)"

text \<open>
  \<open>json.dump\<close>. With \<open>ensure_ascii=False\<close> a string is written between quotes with only
  the quote, the backslash and the control characters below U+0020 escaped
  (\<open>encode_basestring\<close> of \<open>json.encoder\<close>). With \<open>indent=2\<close> every key of the dictionary
  and every item of a list stands on a line of its own, indented by two spaces for each
  level, the item separator is a comma, the key separator a colon and a space; an empty
  list is \<open>[]\<close> and an empty dictionary \<open>{}\<close>. \<open>encode_cache\<close> is that text for a
  dictionary from strings to lists of strings.
\<close>

definition hex_digit :: "nat \<Rightarrow> char" where
  "hex_digit d = (if d < 10 then char_of (48 + d) else char_of (87 + d))"

definition escape_char :: "char \<Rightarrow> string" where
  "escape_char c =
     (if c = CHR 0x22 then [CHR 0x5C, CHR 0x22]
      else if c = CHR 0x5C then [CHR 0x5C, CHR 0x5C]
      else if c = CHR 0x0A then [CHR 0x5C, CHR ''n'']
      else if c = CHR 0x0D then [CHR 0x5C, CHR ''r'']
      else if c = CHR 0x09 then [CHR 0x5C, CHR ''t'']
      else if c = CHR 0x08 then [CHR 0x5C, CHR ''b'']
      else if c = CHR 0x0C then [CHR 0x5C, CHR ''f'']
      else if byte c < 0x20 then
        [CHR 0x5C, CHR ''u'', CHR ''0'', CHR ''0'', hex_digit (byte c div 16), hex_digit (byte c mod 16)]
      else [c])"

definition encode_basestring :: "string \<Rightarrow> string" where
  "encode_basestring s = CHR 0x22 # concat (map escape_char s) @ [CHR 0x22]"

fun join :: "string \<Rightarrow> string list \<Rightarrow> string" where
  "join sep [] = []"
| "join sep [x] = x"
| "join sep (x # y # ys) = x @ sep @ join sep (y # ys)"

definition newline_indent :: "nat \<Rightarrow> string" where
  "newline_indent level = CHR 0x0A # replicate (2 * level) (CHR 0x20)"

definition encode_list :: "string list \<Rightarrow> string" where
  "encode_list tags =
     (if tags = [] then ''[]''
      else ''['' @ newline_indent 2 @
           join ('','' @ newline_indent 2) (map encode_basestring tags) @
           newline_indent 1 @ '']'')"

definition encode_item :: "string \<times> string list \<Rightarrow> string" where
  "encode_item kv = encode_basestring (fst kv) @ '': '' @ encode_list (snd kv)"

definition encode_cache :: "genre_cache \<Rightarrow> string" where
  "encode_cache c =
     (if c = [] then ''{}''
      else ''{'' @ newline_indent 1 @
           join ('','' @ newline_indent 1) (map encode_item c) @
           newline_indent 0 @ ''}'')"

text \<open>
  \<open>json.load\<close>. The values it builds: \<open>None\<close>, booleans, strings, lists and dictionaries.
  A number in the text ends the parse with \<open>NotModelled\<close>: Python's \<open>int\<close> and \<open>float\<close>
  take no part in the cache.
\<close>

datatype pyval = PNone | PBool bool | PStr string | PList "pyval list" | PDict "(string \<times> pyval) list"

definition is_ws :: "char \<Rightarrow> bool" where
  "is_ws c = (c = CHR 0x20 \<or> c = CHR 0x09 \<or> c = CHR 0x0A \<or> c = CHR 0x0D)"

definition skip_ws :: "string \<Rightarrow> string" where
  "skip_ws s = dropWhile is_ws s"

text \<open>
  A \<open>\u\<close> escape: four hexadecimal digits, and for a high surrogate that is followed by
  the escape of a low surrogate the code point of the pair. \<open>chr_bytes\<close> gives the bytes
  of a code point, \<open>scan_unicode\<close> the bytes of the escape and the number of characters
  it takes after \<open>\u\<close>.
\<close>

definition hex_value :: "char \<Rightarrow> nat option" where
  "hex_value c =
     (if 48 \<le> byte c \<and> byte c \<le> 57 then Some (byte c - 48)
      else if 97 \<le> byte c \<and> byte c \<le> 102 then Some (byte c - 87)
      else if 65 \<le> byte c \<and> byte c \<le> 70 then Some (byte c - 55)
      else None)"

definition decode_uXXXX :: "string \<Rightarrow> nat option" where
  "decode_uXXXX s =
     (case s of
        a # b # c # d # r \<Rightarrow>
          (case (hex_value a, hex_value b, hex_value c, hex_value d) of
             (Some p, Some q, Some r', Some t) \<Rightarrow> Some (((p * 16 + q) * 16 + r') * 16 + t)
           | _ \<Rightarrow> None)
      | _ \<Rightarrow> None)"

definition chr_bytes :: "nat \<Rightarrow> string" where
  "chr_bytes u =
     (if u < 0x80 then [char_of u]
      else if u < 0x800 then [char_of (0xC0 + u div 64), char_of (0x80 + u mod 64)]
      else if u < 0x10000 then
        [char_of (0xE0 + u div 4096), char_of (0x80 + u div 64 mod 64), char_of (0x80 + u mod 64)]
      else
        [char_of (0xF0 + u div 262144), char_of (0x80 + u div 4096 mod 64),
         char_of (0x80 + u div 64 mod 64), char_of (0x80 + u mod 64)])"

definition scan_unicode :: "string \<Rightarrow> (string \<times> nat) option" where
  "scan_unicode s =
     (case decode_uXXXX s of
        None \<Rightarrow> None
      | Some u \<Rightarrow>
          if 0xD800 \<le> u \<and> u \<le> 0xDBFF \<and> take 2 (drop 4 s) = [CHR 0x5C, CHR ''u''] then
            (case decode_uXXXX (drop 6 s) of
               None \<Rightarrow> None
             | Some u2 \<Rightarrow>
                 if 0xDC00 \<le> u2 \<and> u2 \<le> 0xDFFF
                 then Some (chr_bytes (0x10000 + ((u - 0xD800) * 1024 + (u2 - 0xDC00))), 10)
                 else Some (chr_bytes u, 4))
          else Some (chr_bytes u, 4))"

definition unescape :: "char \<Rightarrow> char option" where
  "unescape e =
     (if e = CHR 0x22 then Some (CHR 0x22)
      else if e = CHR 0x5C then Some (CHR 0x5C)
      else if e = CHR ''/'' then Some (CHR ''/'')
      else if e = CHR ''b'' then Some (CHR 0x08)
      else if e = CHR ''f'' then Some (CHR 0x0C)
      else if e = CHR ''n'' then Some (CHR 0x0A)
      else if e = CHR ''r'' then Some (CHR 0x0D)
      else if e = CHR ''t'' then Some (CHR 0x09)
      else None)"

text \<open>
  \<open>scanstring\<close> reads a string from behind its opening quote and returns it with the text
  behind the closing quote. A control character inside a string is an error
  (\<open>strict=True\<close>).
\<close>

fun scanstring :: "string \<Rightarrow> io_error + (string \<times> string)" where
  "scanstring [] = Inl JSONDecodeError"
| "scanstring (c # s) =
     (if c = CHR 0x22 then Inr ([], s)
      else if c = CHR 0x5C then
        (case s of
           [] \<Rightarrow> Inl JSONDecodeError
         | e # s1 \<Rightarrow>
             if e = CHR ''u'' then
               (case scan_unicode s1 of
                  None \<Rightarrow> Inl JSONDecodeError
                | Some (bs, k) \<Rightarrow>
                    (case scanstring (drop k s1) of
                       Inl err \<Rightarrow> Inl err
                     | Inr (t, r) \<Rightarrow> Inr (bs @ t, r)))
             else
               (case unescape e of
                  None \<Rightarrow> Inl JSONDecodeError
                | Some ch \<Rightarrow>
                    (case scanstring s1 of Inl err \<Rightarrow> Inl err | Inr (t, r) \<Rightarrow> Inr (ch # t, r))))
      else if byte c < 0x20 then Inl JSONDecodeError
      else (case scanstring s of Inl err \<Rightarrow> Inl err | Inr (t, r) \<Rightarrow> Inr (c # t, r)))"

text \<open>\<open>dict(pairs)\<close>: a key that comes again keeps its place and takes the later value.\<close>

definition py_dict :: "(string \<times> pyval) list \<Rightarrow> (string \<times> pyval) list" where
  "py_dict pairs = fold (\<lambda>kv d. dict_set (fst kv) (snd kv) d) pairs []"

definition starts_number :: "char \<Rightarrow> bool" where
  "starts_number c = (c = CHR ''-'' \<or> (48 \<le> byte c \<and> byte c \<le> 57) \<or> c = CHR ''N'' \<or> c = CHR ''I'')"

text \<open>
  The scanner: \<open>scan_once\<close> reads one value, \<open>parse_array\<close> the items of a list from the
  first item on, \<open>parse_object\<close> the members of a dictionary from the quote of the first
  key on. The first argument bounds the number of nested calls; \<open>json_loads\<close> starts
  with one more than the length of the text.
\<close>

fun scan_once :: "nat \<Rightarrow> string \<Rightarrow> io_error + (pyval \<times> string)"
  and parse_array :: "nat \<Rightarrow> string \<Rightarrow> pyval list \<Rightarrow> io_error + (pyval \<times> string)"
  and parse_object :: "nat \<Rightarrow> string \<Rightarrow> (string \<times> pyval) list \<Rightarrow> io_error + (pyval \<times> string)"
where
  "scan_once 0 s = Inl NoFuel"
| "scan_once (Suc n) [] = Inl JSONDecodeError"
| "scan_once (Suc n) (c # s) =
     (if c = CHR 0x22 then
        (case scanstring s of Inl err \<Rightarrow> Inl err | Inr (str, rest) \<Rightarrow> Inr (PStr str, rest))
      else if c = CHR 0x7B then
        (case skip_ws s of
           [] \<Rightarrow> Inl JSONDecodeError
         | d # s1 \<Rightarrow> if d = CHR 0x7D then Inr (PDict [], s1) else parse_object n (d # s1) [])
      else if c = CHR 0x5B then
        (case skip_ws s of
           [] \<Rightarrow> Inl JSONDecodeError
         | d # s1 \<Rightarrow> if d = CHR 0x5D then Inr (PList [], s1) else parse_array n (d # s1) [])
      else if take 4 (c # s) = ''null'' then Inr (PNone, drop 4 (c # s))
      else if take 4 (c # s) = ''true'' then Inr (PBool True, drop 4 (c # s))
      else if take 5 (c # s) = ''false'' then Inr (PBool False, drop 5 (c # s))
      else if starts_number c then Inl NotModelled
      else Inl JSONDecodeError)"
| "parse_array 0 s vs = Inl NoFuel"
| "parse_array (Suc n) s vs =
     (case scan_once n s of
        Inl err \<Rightarrow> Inl err
      | Inr (v, rest) \<Rightarrow>
          (case skip_ws rest of
             [] \<Rightarrow> Inl JSONDecodeError
           | d # s1 \<Rightarrow>
               if d = CHR 0x5D then Inr (PList (vs @ [v]), s1)
               else if d = CHR '','' then parse_array n (skip_ws s1) (vs @ [v])
               else Inl JSONDecodeError))"
| "parse_object 0 s pairs = Inl NoFuel"
| "parse_object (Suc n) s pairs =
     (case s of
        [] \<Rightarrow> Inl JSONDecodeError
      | q # s0 \<Rightarrow>
          if q \<noteq> CHR 0x22 then Inl JSONDecodeError
          else
            (case scanstring s0 of
               Inl err \<Rightarrow> Inl err
             | Inr (key, rest) \<Rightarrow>
                 (case skip_ws rest of
                    [] \<Rightarrow> Inl JSONDecodeError
                  | colon # s1 \<Rightarrow>
                      if colon \<noteq> CHR '':'' then Inl JSONDecodeError
                      else
                        (case scan_once n (skip_ws s1) of
                           Inl err \<Rightarrow> Inl err
                         | Inr (v, rest1) \<Rightarrow>
                             (case skip_ws rest1 of
                                [] \<Rightarrow> Inl JSONDecodeError
                              | d # s2 \<Rightarrow>
                                  if d = CHR 0x7D then Inr (PDict (py_dict (pairs @ [(key, v)])), s2)
                                  else if d = CHR '','' then parse_object n (skip_ws s2) (pairs @ [(key, v)])
                                  else Inl JSONDecodeError)))))"

text \<open>
  \<open>json.loads\<close> refuses a text that starts with a byte order mark, skips white space,
  reads one value and refuses anything but white space behind it.
\<close>

definition json_loads :: "string \<Rightarrow> io_error + pyval" where
  "json_loads s =
     (if take 3 s = [CHR 0xEF, CHR 0xBB, CHR 0xBF] then Inl JSONDecodeError
      else case scan_once (Suc (length s)) (skip_ws s) of
             Inl err \<Rightarrow> Inl err
           | Inr (v, rest) \<Rightarrow> if skip_ws rest = [] then Inr v else Inl JSONDecodeError)"

text \<open>
  The file: its bytes, or \<open>None\<close> when it does not exist (line ends are written as
  they are, as on POSIX). \<open>save_genre_cache_file\<close> is
  lines 105 to 107; when the write raises, the state of the file is not given.
  \<open>load_genre_cache_file\<close> is lines 98 to 102 and returns what \<open>json.load\<close> builds.
  \<open>cache_value\<close> is the dictionary of the program as a value of \<open>json.load\<close>.
\<close>

type_synonym disk = "string option"

definition save_genre_cache_file :: "genre_cache \<Rightarrow> disk \<Rightarrow> io_error + disk" where
  "save_genre_cache_file c d =
     (case write_text (encode_cache c) of Inl err \<Rightarrow> Inl err | Inr bytes \<Rightarrow> Inr (Some bytes))"

definition load_genre_cache_file :: "disk \<Rightarrow> io_error + pyval" where
  "load_genre_cache_file d =
     (case d of
        None \<Rightarrow> Inr (PDict [])
      | Some bytes \<Rightarrow>
          (case read_text bytes of Inl err \<Rightarrow> Inl err | Inr text \<Rightarrow> json_loads text))"

definition cache_value :: "genre_cache \<Rightarrow> pyval" where
  "cache_value c = PDict (map (\<lambda>kv. (fst kv, PList (map PStr (snd kv)))) c)"

definition item_value :: "string \<times> string list \<Rightarrow> string \<times> pyval" where
  "item_value kv = (fst kv, PList (map PStr (snd kv)))"

text \<open>Every key and every tag of the dictionary is a string that UTF-8 can encode.\<close>

definition utf8_strings :: "genre_cache \<Rightarrow> bool" where
  "utf8_strings c = list_all (\<lambda>kv. utf8_valid (fst kv) \<and> list_all utf8_valid (snd kv)) c"


section \<open>Notions of the statements\<close>

text \<open>
  The relevance count of a tag as the sort key reads it, and a tag that is a proper
  (name, count) pair: its count converts (or is absent, and counts as 0) and it has a name.
\<close>

definition tag_relevance :: "mb_tag \<Rightarrow> int" where
  "tag_relevance t = (case tag_key t of Inr n \<Rightarrow> n | Inl err \<Rightarrow> 0)"

definition well_formed_tag :: "mb_tag \<Rightarrow> bool" where
  "well_formed_tag t = (tag_count t \<noteq> BadCount \<and> tag_name t \<noteq> None)"



text \<open>
  No request so far was for a name the cache held when the request was sent; and the
  invariant of the loops: the pending names are distinct and none is a key of the cache.
\<close>

definition fresh_requests :: "resolver \<Rightarrow> bool" where
  "fresh_requests st = (\<forall>q \<in> set (requests st). fst q \<notin> set (snd q))"

definition pending_ok :: "resolver \<Rightarrow> string list \<Rightarrow> bool" where
  "pending_ok st ns = (distinct ns \<and> set ns \<inter> set (dict_keys (cache st)) = {} \<and> fresh_requests st)"


section \<open>Example inputs\<close>

text \<open>
  The three events of the specification's example: a play of track \<open>a\<close>, a skip of it
  (29 seconds), and a play of track \<open>b\<close>, all by \<open>Art1\<close>.
\<close>

definition ex_play_a :: play_event where
  "ex_play_a =
     \<lparr>spotify_track_uri = Val ''a'', master_metadata_track_name = Val ''X'',
      master_metadata_album_artist_name = Val ''Art1'', master_metadata_album_album_name = Absent,
      ms_played = Val 31000, ts = Absent\<rparr>"

definition ex_skip_a :: play_event where
  "ex_skip_a =
     \<lparr>spotify_track_uri = Val ''a'', master_metadata_track_name = Val ''X'',
      master_metadata_album_artist_name = Val ''Art1'', master_metadata_album_album_name = Absent,
      ms_played = Val 29000, ts = Absent\<rparr>"

definition ex_play_b :: play_event where
  "ex_play_b =
     \<lparr>spotify_track_uri = Val ''b'', master_metadata_track_name = Val ''Y'',
      master_metadata_album_artist_name = Val ''Art1'', master_metadata_album_album_name = Absent,
      ms_played = Val 40000, ts = Absent\<rparr>"

definition ex_events :: "play_event list" where
  "ex_events = [ex_play_a, ex_skip_a, ex_play_b]"

text \<open>An event with URI and artist but a \<open>null\<close> track name, and one without \<open>ms_played\<close>.\<close>

definition ex_no_track_name :: play_event where
  "ex_no_track_name =
     \<lparr>spotify_track_uri = Val ''a'', master_metadata_track_name = Null,
      master_metadata_album_artist_name = Val ''Art1'', master_metadata_album_album_name = Absent,
      ms_played = Val 40000, ts = Absent\<rparr>"

definition ex_no_ms :: play_event where
  "ex_no_ms =
     \<lparr>spotify_track_uri = Val ''a'', master_metadata_track_name = Val ''X'',
      master_metadata_album_artist_name = Val ''Art1'', master_metadata_album_album_name = Absent,
      ms_played = Absent, ts = Absent\<rparr>"

text \<open>
  Three tracks in the order of their first play, the first and the last with the same
  play count; and two artists with the same play count.
\<close>

definition ex_tracks :: "track_stat pydict" where
  "ex_tracks =
     [(''a'', \<lparr>track_name = ''X'', artist_name = Some ''Art1'', album_name = Some [],
              play_count = 1, total_ms = 31000\<rparr>),
      (''b'', \<lparr>track_name = ''Y'', artist_name = Some ''Art1'', album_name = Some [],
              play_count = 2, total_ms = 80000\<rparr>),
      (''c'', \<lparr>track_name = ''Z'', artist_name = Some ''Art2'', album_name = Some [],
              play_count = 1, total_ms = 45000\<rparr>)]"

definition ex_artists :: "artist_stat pydict" where
  "ex_artists =
     [(''Art1'', \<lparr>a_play_count = 3, a_total_ms = 111000, a_track_uris = {''a'', ''b''}\<rparr>),
      (''Art2'', \<lparr>a_play_count = 3, a_total_ms = 135000, a_track_uris = {''c''}\<rparr>)]"

text \<open>
  A tag source that knows \<open>NewArtist\<close>, with six tags of which three tie at count 3, and
  raises for every other name; a cache file with two entries, one of them empty; and the
  names of a request.
\<close>

definition ex_tags :: "mb_tag list" where
  "ex_tags =
     [\<lparr>tag_count = Count 3, tag_name = Some ''pop''\<rparr>,
      \<lparr>tag_count = Count 10, tag_name = Some ''rock''\<rparr>,
      \<lparr>tag_count = Count 3, tag_name = Some ''indie''\<rparr>,
      \<lparr>tag_count = Count 1, tag_name = Some ''folk''\<rparr>,
      \<lparr>tag_count = Count 7, tag_name = Some ''punk''\<rparr>,
      \<lparr>tag_count = Count 3, tag_name = Some ''emo''\<rparr>]"

definition ex_source :: tag_source where
  "ex_source k name =
     (if name = ''NewArtist'' then Returns (Some [\<lparr>tag_list = Some ex_tags\<rparr>]) else Raises)"

definition ex_fs :: filesystem where
  "ex_fs = \<lparr>cache_file = Some [(''Old'', [''jazz'']), (''Quiet'', [])], dumps = 0\<rparr>"

definition ex_names :: "string list" where
  "ex_names = [''Quiet'', ''NewArtist'', ''Ghost'']"

text \<open>
  A genre cache in which the excluded artist \<open>Lane 8\<close> and the artist \<open>Netsky\<close> both carry
  a drum and bass tag, and one play of a track of each.
\<close>

definition ex_genre_cache :: genre_cache where
  "ex_genre_cache = [(''Lane 8'', [''Drum and Bass'']), (''Netsky'', [''liquid drum and bass''])]"

definition ex_dnb_events :: "play_event list" where
  "ex_dnb_events =
     [\<lparr>spotify_track_uri = Val ''t1'', master_metadata_track_name = Val ''Road'',
       master_metadata_album_artist_name = Val ''Lane 8'', master_metadata_album_album_name = Absent,
       ms_played = Val 200000, ts = Absent\<rparr>,
      \<lparr>spotify_track_uri = Val ''t2'', master_metadata_track_name = Val ''Rio'',
       master_metadata_album_artist_name = Val ''Netsky'', master_metadata_album_album_name = Absent,
       ms_played = Val 180000, ts = Absent\<rparr>]"


text \<open>
  A cache with a name beyond ASCII (\<open>Sigur Ros\<close> with an acute accent), a name with a
  backslash and a name with a tab, and a tag with a quote; and a cache whose only name
  is the surrogate U+D800.
\<close>

definition ex_cache :: genre_cache where
  "ex_cache =
     [(''Sigur R'' @ [CHR 0xC3, CHR 0xB3] @ ''s'', [''post-rock'', ''ambient'']),
      (''AC'' @ [CHR 0x5C] @ ''DC'', []),
      (''Tab'' @ [CHR 0x09] @ ''Name'', [''a'' @ [CHR 0x22] @ ''b''])]"

definition ex_surrogate_cache :: genre_cache where
  "ex_surrogate_cache = [([CHR 0xED, CHR 0xA0, CHR 0x80], [])]"


section \<open>Facts about dictionaries\<close>


lemma dict_keys_set:
  "set (dict_keys (dict_set k v d)) = insert k (set (dict_keys d))"
  by (induction d) (auto simp: dict_keys_def)




section \<open>Aggregation\<close>

text \<open>
  Each step adds one play exactly when it counts the event: the sum over the dictionary
  is the number of counted events.
\<close>

lemma track_plays_dict_set:
  "play_count v = play_count (dict_default d k new_track) + 1 \<Longrightarrow>
   track_plays (dict_set k v d) = track_plays d + 1"
  by (induction d) (auto simp: track_plays_def dict_default_def new_track_def)

lemma artist_plays_dict_set:
  "a_play_count v = a_play_count (dict_default d k new_artist) + 1 \<Longrightarrow>
   artist_plays (dict_set k v d) = artist_plays d + 1"
  by (induction d) (auto simp: artist_plays_def dict_default_def new_artist_def)

lemma track_step_plays:
  "track_step min_ms e T = Inr T' \<Longrightarrow>
   track_plays T' = track_plays T + (if qualifying min_ms e then 1 else 0)"
  by (auto simp: track_step_def qualifying_def long_enough_def Let_def track_plays_dict_set
           split: if_splits option.splits sum.splits field.splits)

lemma artist_step_plays:
  "artist_step min_ms e A = Inr A' \<Longrightarrow>
   artist_plays A' = artist_plays A + (if artist_counted min_ms e then 1 else 0)"
  by (auto simp: artist_step_def artist_counted_def long_enough_def Let_def artist_plays_dict_set
           split: if_splits option.splits sum.splits field.splits)

lemma track_loop_plays:
  "track_loop min_ms es T = Inr T' \<Longrightarrow>
   track_plays T' = track_plays T + int (length (filter (qualifying min_ms) es))"
proof (induction es arbitrary: T)
  case Nil
  then show ?case by simp
next
  case (Cons e es)
  then obtain T1 where s: "track_step min_ms e T = Inr T1" and l: "track_loop min_ms es T1 = Inr T'"
    by (auto split: sum.splits)
  from track_step_plays[OF s] Cons.IH[OF l] show ?case by simp
qed

lemma artist_loop_plays:
  "artist_loop min_ms es A = Inr A' \<Longrightarrow>
   artist_plays A' = artist_plays A + int (length (filter (artist_counted min_ms) es))"
proof (induction es arbitrary: A)
  case Nil
  then show ?case by simp
next
  case (Cons e es)
  then obtain A1 where s: "artist_step min_ms e A = Inr A1" and l: "artist_loop min_ms es A1 = Inr A'"
    by (auto split: sum.splits)
  from artist_step_plays[OF s] Cons.IH[OF l] show ?case by simp
qed

text \<open>A step raises only when it reads \<open>ms_played\<close> and finds no integer.\<close>

lemma track_step_total:
  "has_ms e \<Longrightarrow> \<exists>T'. track_step min_ms e T = Inr T'"
  by (auto simp: track_step_def has_ms_def Let_def split: option.splits field.splits)

lemma artist_step_total:
  "has_ms e \<Longrightarrow> \<exists>A'. artist_step min_ms e A = Inr A'"
  by (auto simp: artist_step_def has_ms_def Let_def split: option.splits field.splits)

lemma track_loop_total:
  "\<forall>e \<in> set es. has_ms e \<Longrightarrow> \<exists>T'. track_loop min_ms es T = Inr T'"
proof (induction es arbitrary: T)
  case Nil
  then show ?case by simp
next
  case (Cons e es)
  then obtain T1 where "track_step min_ms e T = Inr T1"
    using track_step_total[of e min_ms T] by auto
  with Cons show ?case by simp
qed

lemma artist_loop_total:
  "\<forall>e \<in> set es. has_ms e \<Longrightarrow> \<exists>A'. artist_loop min_ms es A = Inr A'"
proof (induction es arbitrary: A)
  case Nil
  then show ?case by simp
next
  case (Cons e es)
  then obtain A1 where "artist_step min_ms e A = Inr A1"
    using artist_step_total[of e min_ms A] by auto
  with Cons show ?case by simp
qed

lemma track_step_total2:
  "truthy (dict_get (spotify_track_uri e)) \<and> truthy (dict_get (master_metadata_track_name e)) \<longrightarrow> has_ms e
   \<Longrightarrow> \<exists>T'. track_step min_ms e T = Inr T'"
  by (auto simp: track_step_def has_ms_def Let_def split: option.splits field.splits)

lemma artist_step_total2:
  "truthy (dict_get (master_metadata_album_artist_name e)) \<and> truthy (dict_get (spotify_track_uri e)) \<longrightarrow> has_ms e
   \<Longrightarrow> \<exists>A'. artist_step min_ms e A = Inr A'"
  by (auto simp: artist_step_def has_ms_def Let_def split: option.splits field.splits)

lemma track_loop_append:
  "track_loop min_ms (xs @ ys) T =
     (case track_loop min_ms xs T of Inl err \<Rightarrow> Inl err | Inr T1 \<Rightarrow> track_loop min_ms ys T1)"
  by (induction xs arbitrary: T) (auto split: sum.splits)

lemma artist_loop_append:
  "artist_loop min_ms (xs @ ys) A =
     (case artist_loop min_ms xs A of Inl err \<Rightarrow> Inl err | Inr A1 \<Rightarrow> artist_loop min_ms ys A1)"
  by (induction xs arbitrary: A) (auto split: sum.splits)

lemma track_step_skip:
  "\<not> truthy (dict_get (spotify_track_uri e)) \<or> \<not> truthy (dict_get (master_metadata_track_name e))
     \<or> (has_ms e \<and> \<not> long_enough min_ms e) \<Longrightarrow> track_step min_ms e T = Inr T"
  by (auto simp: track_step_def has_ms_def long_enough_def Let_def split: option.splits field.splits)

lemma artist_step_skip:
  "\<not> truthy (dict_get (master_metadata_album_artist_name e)) \<or> \<not> truthy (dict_get (spotify_track_uri e))
     \<or> (has_ms e \<and> \<not> long_enough min_ms e) \<Longrightarrow> artist_step min_ms e A = Inr A"
  by (auto simp: artist_step_def has_ms_def long_enough_def Let_def split: option.splits field.splits)

text \<open>
  Claim C1, as amended. Take a list of events in which every qualifying event has a
  non-empty artist name, and in which every event that \<open>aggregate_artists\<close> counts (track
  URI and artist name non-empty, \<open>ms_played\<close> at least \<open>min_ms\<close>) has a non-empty track
  name. Whenever both aggregations return, the sum of \<open>play_count\<close> over the tracks
  equals the sum of \<open>play_count\<close> over the artists; and both return when every event
  carries an integer \<open>ms_played\<close>.
\<close>

theorem play_count_sums_agree:
  assumes art: "\<forall>e \<in> set es. qualifying min_ms e \<longrightarrow> truthy (dict_get (master_metadata_album_artist_name e))"
      and nam: "\<forall>e \<in> set es. artist_counted min_ms e \<longrightarrow> truthy (dict_get (master_metadata_track_name e))"
  shows "(\<forall>T A. aggregate_tracks es min_ms = Inr T \<longrightarrow> aggregate_artists es min_ms = Inr A \<longrightarrow>
            track_plays T = artist_plays A) \<and>
         ((\<forall>e \<in> set es. has_ms e) \<longrightarrow>
            (\<exists>T A. aggregate_tracks es min_ms = Inr T \<and> aggregate_artists es min_ms = Inr A))"
proof -
  have same: "filter (qualifying min_ms) es = filter (artist_counted min_ms) es"
    using art nam by (intro filter_cong) (auto simp: qualifying_def artist_counted_def)
  have part: "track_plays T = artist_plays A"
    if "aggregate_tracks es min_ms = Inr T" and "aggregate_artists es min_ms = Inr A" for T A
    using track_loop_plays[of min_ms es "[]" T] artist_loop_plays[of min_ms es "[]" A] that same
    by (simp add: aggregate_tracks_def aggregate_artists_def track_plays_def artist_plays_def)
  have tot: "\<exists>T A. aggregate_tracks es min_ms = Inr T \<and> aggregate_artists es min_ms = Inr A"
    if "\<forall>e \<in> set es. has_ms e"
    using track_loop_total[OF that, of min_ms "[]"] artist_loop_total[OF that, of min_ms "[]"]
    by (auto simp: aggregate_tracks_def aggregate_artists_def)
  from part tot show ?thesis by blast
qed

theorem play_count_sums_agree_witness:
  "list_all (\<lambda>e. truthy (dict_get (master_metadata_album_artist_name e))) ex_events \<and>
   list_all (\<lambda>e. truthy (dict_get (master_metadata_track_name e))) ex_events \<and>
   list_all has_ms ex_events \<and>
   aggregate_tracks ex_events 30000 =
     Inr [(''a'', \<lparr>track_name = ''X'', artist_name = Some ''Art1'', album_name = Some [],
                  play_count = 1, total_ms = 31000\<rparr>),
          (''b'', \<lparr>track_name = ''Y'', artist_name = Some ''Art1'', album_name = Some [],
                  play_count = 1, total_ms = 40000\<rparr>)] \<and>
   aggregate_artists ex_events 30000 =
     Inr [(''Art1'', \<lparr>a_play_count = 2, a_total_ms = 71000, a_track_uris = {''b'', ''a''}\<rparr>)] \<and>
   track_plays
     [(''a'', \<lparr>track_name = ''X'', artist_name = Some ''Art1'', album_name = Some [],
              play_count = 1, total_ms = 31000\<rparr>),
      (''b'', \<lparr>track_name = ''Y'', artist_name = Some ''Art1'', album_name = Some [],
              play_count = 1, total_ms = 40000\<rparr>)] =
   artist_plays [(''Art1'', \<lparr>a_play_count = 2, a_total_ms = 71000, a_track_uris = {''b'', ''a''}\<rparr>)]"
proof -
  have art: "\<forall>e \<in> set ex_events. qualifying 30000 e \<longrightarrow>
               truthy (dict_get (master_metadata_album_artist_name e))"
    by (simp add: ex_events_def ex_play_a_def ex_skip_a_def ex_play_b_def)
  have nam: "\<forall>e \<in> set ex_events. artist_counted 30000 e \<longrightarrow>
               truthy (dict_get (master_metadata_track_name e))"
    by (simp add: ex_events_def ex_play_a_def ex_skip_a_def ex_play_b_def)
  have ms: "list_all has_ms ex_events"
    by (simp add: ex_events_def ex_play_a_def ex_skip_a_def ex_play_b_def has_ms_def)
  have l1: "list_all (\<lambda>e. truthy (dict_get (master_metadata_album_artist_name e))) ex_events"
    by (simp add: ex_events_def ex_play_a_def ex_skip_a_def ex_play_b_def)
  have l2: "list_all (\<lambda>e. truthy (dict_get (master_metadata_track_name e))) ex_events"
    by (simp add: ex_events_def ex_play_a_def ex_skip_a_def ex_play_b_def)
  have t: "aggregate_tracks ex_events 30000 =
     Inr [(''a'', \<lparr>track_name = ''X'', artist_name = Some ''Art1'', album_name = Some [],
                  play_count = 1, total_ms = 31000\<rparr>),
          (''b'', \<lparr>track_name = ''Y'', artist_name = Some ''Art1'', album_name = Some [],
                  play_count = 1, total_ms = 40000\<rparr>)]"
    by (simp add: aggregate_tracks_def track_step_def dict_default_def new_track_def
        ex_events_def ex_play_a_def ex_skip_a_def ex_play_b_def)
  have a: "aggregate_artists ex_events 30000 =
     Inr [(''Art1'', \<lparr>a_play_count = 2, a_total_ms = 71000, a_track_uris = {''b'', ''a''}\<rparr>)]"
    by (simp add: aggregate_artists_def artist_step_def dict_default_def new_artist_def
        ex_events_def ex_play_a_def ex_skip_a_def ex_play_b_def)
  from play_count_sums_agree[OF art nam] t a ms l1 l2 show ?thesis by blast
qed

text \<open>
  The claim as stated fails on one event with a track URI, an artist name, 40 seconds
  played and no track name. The event does not qualify, so the claim's premise holds;
  \<open>aggregate_tracks\<close> skips it and \<open>aggregate_artists\<close> counts it: the sums are 0 and 1.
\<close>

theorem play_count_sums_counterexample:
  "\<not> qualifying 30000 ex_no_track_name \<and>
   truthy (dict_get (master_metadata_album_artist_name ex_no_track_name)) \<and>
   aggregate_tracks [ex_no_track_name] 30000 = Inr [] \<and>
   track_plays [] = 0 \<and>
   aggregate_artists [ex_no_track_name] 30000 =
     Inr [(''Art1'', \<lparr>a_play_count = 1, a_total_ms = 40000, a_track_uris = {''a''}\<rparr>)] \<and>
   artist_plays [(''Art1'', \<lparr>a_play_count = 1, a_total_ms = 40000, a_track_uris = {''a''}\<rparr>)] = 1"
  by (simp add: aggregate_tracks_def aggregate_artists_def track_step_def artist_step_def
      dict_default_def new_artist_def track_plays_def artist_plays_def qualifying_def
      ex_no_track_name_def)

text \<open>
  Claim C2, as amended. An event whose track URI is missing or empty, whose track name
  (for \<open>aggregate_tracks\<close>) or artist name (for \<open>aggregate_artists\<close>) is missing or empty,
  or whose \<open>ms_played\<close> is an integer below \<open>min_ms\<close>, is excluded silently: the result is
  the result on the list without the event. \<open>aggregate_tracks\<close> returns on every list in
  which each event with a non-empty track URI and track name carries an integer
  \<open>ms_played\<close>, and \<open>aggregate_artists\<close> on every list in which each event with a non-empty
  artist name and track URI does.
\<close>

theorem malformed_events_excluded:
  "(\<not> truthy (dict_get (spotify_track_uri e)) \<or> \<not> truthy (dict_get (master_metadata_track_name e))
       \<or> (has_ms e \<and> \<not> long_enough min_ms e)
     \<longrightarrow> aggregate_tracks (xs @ e # ys) min_ms = aggregate_tracks (xs @ ys) min_ms) \<and>
   (\<not> truthy (dict_get (master_metadata_album_artist_name e)) \<or> \<not> truthy (dict_get (spotify_track_uri e))
       \<or> (has_ms e \<and> \<not> long_enough min_ms e)
     \<longrightarrow> aggregate_artists (xs @ e # ys) min_ms = aggregate_artists (xs @ ys) min_ms) \<and>
   ((\<forall>e \<in> set es. truthy (dict_get (spotify_track_uri e)) \<and>
          truthy (dict_get (master_metadata_track_name e)) \<longrightarrow> has_ms e)
     \<longrightarrow> (\<exists>T. aggregate_tracks es min_ms = Inr T)) \<and>
   ((\<forall>e \<in> set es. truthy (dict_get (master_metadata_album_artist_name e)) \<and>
          truthy (dict_get (spotify_track_uri e)) \<longrightarrow> has_ms e)
     \<longrightarrow> (\<exists>A. aggregate_artists es min_ms = Inr A))"
proof (intro conjI impI)
  assume "\<not> truthy (dict_get (spotify_track_uri e)) \<or> \<not> truthy (dict_get (master_metadata_track_name e))
       \<or> (has_ms e \<and> \<not> long_enough min_ms e)"
  from track_step_skip[OF this]
  show "aggregate_tracks (xs @ e # ys) min_ms = aggregate_tracks (xs @ ys) min_ms"
    by (simp add: aggregate_tracks_def track_loop_append split: sum.splits)
next
  assume "\<not> truthy (dict_get (master_metadata_album_artist_name e)) \<or> \<not> truthy (dict_get (spotify_track_uri e))
       \<or> (has_ms e \<and> \<not> long_enough min_ms e)"
  from artist_step_skip[OF this]
  show "aggregate_artists (xs @ e # ys) min_ms = aggregate_artists (xs @ ys) min_ms"
    by (simp add: aggregate_artists_def artist_loop_append split: sum.splits)
next
  assume "\<forall>e \<in> set es. truthy (dict_get (spotify_track_uri e)) \<and>
          truthy (dict_get (master_metadata_track_name e)) \<longrightarrow> has_ms e"
  then have "\<exists>T'. track_loop min_ms es T = Inr T'" for T
  proof (induction es arbitrary: T)
    case Nil
    then show ?case by simp
  next
    case (Cons e es)
    then obtain T1 where "track_step min_ms e T = Inr T1"
      using track_step_total2[of e min_ms T] by auto
    with Cons show ?case by simp
  qed
  then show "\<exists>T. aggregate_tracks es min_ms = Inr T"
    by (simp add: aggregate_tracks_def)
next
  assume "\<forall>e \<in> set es. truthy (dict_get (master_metadata_album_artist_name e)) \<and>
          truthy (dict_get (spotify_track_uri e)) \<longrightarrow> has_ms e"
  then have "\<exists>A'. artist_loop min_ms es A = Inr A'" for A
  proof (induction es arbitrary: A)
    case Nil
    then show ?case by simp
  next
    case (Cons e es)
    then obtain A1 where "artist_step min_ms e A = Inr A1"
      using artist_step_total2[of e min_ms A] by auto
    with Cons show ?case by simp
  qed
  then show "\<exists>A. aggregate_artists es min_ms = Inr A"
    by (simp add: aggregate_artists_def)
qed

theorem malformed_events_excluded_witness:
  "has_ms ex_skip_a \<and> \<not> long_enough 30000 ex_skip_a \<and>
   aggregate_tracks ([ex_play_a] @ ex_skip_a # [ex_play_b]) 30000 =
     aggregate_tracks ([ex_play_a] @ [ex_play_b]) 30000 \<and>
   aggregate_artists ([ex_play_a] @ ex_skip_a # [ex_play_b]) 30000 =
     aggregate_artists ([ex_play_a] @ [ex_play_b]) 30000 \<and>
   list_all has_ms ex_events \<and>
   (\<exists>T. aggregate_tracks ex_events 30000 = Inr T) \<and>
   (\<exists>A. aggregate_artists ex_events 30000 = Inr A)"
proof -
  have h: "has_ms ex_skip_a" "\<not> long_enough 30000 ex_skip_a"
    by (simp_all add: has_ms_def long_enough_def ex_skip_a_def)
  have ms: "list_all has_ms ex_events"
    by (simp add: ex_events_def ex_play_a_def ex_skip_a_def ex_play_b_def has_ms_def)
  then have all: "\<forall>e \<in> set ex_events. has_ms e"
    by (simp add: list_all_iff)
  from malformed_events_excluded[of ex_skip_a 30000 "[ex_play_a]" "[ex_play_b]" ex_events] h ms all
  show ?thesis by blast
qed

text \<open>
  The claim as stated fails on an event with track URI, track name and artist name but
  no \<open>ms_played\<close> key: both aggregations raise \<open>KeyError\<close>.
\<close>

theorem missing_ms_played_counterexample:
  "ms_played ex_no_ms = Absent \<and>
   aggregate_tracks [ex_no_ms] 30000 = Inl KeyError \<and>
   aggregate_artists [ex_no_ms] 30000 = Inl KeyError"
  by (simp add: aggregate_tracks_def aggregate_artists_def track_step_def artist_step_def
      ex_no_ms_def)


section \<open>Ranking\<close>

lemma py_sorted_rev_descending:
  "sorted_wrt (\<lambda>a b. key b \<le> key a) (py_sorted_rev key xs)"
proof -
  have "sorted (map (\<lambda>x. - key x) (sort_key (\<lambda>x. - key x) xs))" by simp
  then show ?thesis by (simp add: py_sorted_rev_def sorted_map)
qed

lemma py_sorted_rev_mset: "mset (py_sorted_rev key xs) = mset xs"
  by (simp add: py_sorted_rev_def)

lemma py_sorted_rev_stable:
  "filter (\<lambda>x. key x = k) (py_sorted_rev key xs) = filter (\<lambda>x. key x = k) xs"
proof -
  have "filter (\<lambda>x. - key x = - k) (sort_key (\<lambda>x. - key x) xs) = filter (\<lambda>x. - key x = - k) xs"
    by (rule sort_key_stable)
  then show ?thesis by (simp add: py_sorted_rev_def)
qed

lemma py_enumerate_fst: "map fst (py_enumerate xs start) = map (\<lambda>i. start + int i) [0..<length xs]"
proof (induction xs arbitrary: start)
  case Nil
  then show ?case by simp
next
  case (Cons x xs)
  have "map (\<lambda>i. start + int i) [0..<Suc (length xs)] =
        start # map (\<lambda>i. start + int (Suc i)) [0..<length xs]"
    by (simp only: upt_conv_Cons[of 0] map_Suc_upt[symmetric]) (simp add: comp_def)
  with Cons show ?case by (simp add: add.assoc add.commute)
qed

lemma py_enumerate_snd: "map snd (py_enumerate xs start) = xs"
  by (induction xs arbitrary: start) auto

text \<open>The stable descending sort and the numbering of the rows, for any key and list.\<close>

lemma py_sorted_rev_ranking:
  "sorted_wrt (\<lambda>a b. key b \<le> key a) (py_sorted_rev key xs) \<and>
   mset (py_sorted_rev key xs) = mset xs \<and>
   (\<forall>k. filter (\<lambda>x. key x = k) (py_sorted_rev key xs) = filter (\<lambda>x. key x = k) xs) \<and>
   map fst (ranked_rows n (py_sorted_rev key xs)) = map (\<lambda>i. 1 + int i) [0..<min n (length xs)] \<and>
   map snd (ranked_rows n (py_sorted_rev key xs)) = take n (py_sorted_rev key xs)"
proof -
  have "length (py_sorted_rev key xs) = length xs"
    by (simp add: py_sorted_rev_def)
  then show ?thesis
    by (simp add: py_sorted_rev_descending py_sorted_rev_mset py_sorted_rev_stable
        ranked_rows_def py_enumerate_fst py_enumerate_snd min.commute)
qed

text \<open>
  Claim C8. The three rankings of \<open>main\<close> (tracks and artists by play count, genres by
  listening time) each hold the entries of their mapping, each as often as the mapping
  does, in descending order of the key; entries with equal keys are in the order of the
  mapping; and the rows of the first \<open>n\<close> entries carry the ranks 1, 2, 3 and so on.
\<close>

theorem ranking_sorted_stable_ranked:
  "(sorted_wrt (\<lambda>a b. play_count (snd b) \<le> play_count (snd a)) (top_tracks tracks) \<and>
    mset (top_tracks tracks) = mset tracks \<and>
    (\<forall>k. filter (\<lambda>x. play_count (snd x) = k) (top_tracks tracks) =
          filter (\<lambda>x. play_count (snd x) = k) tracks) \<and>
    map fst (ranked_rows n (top_tracks tracks)) =
      map (\<lambda>i. 1 + int i) [0..<min n (length tracks)] \<and>
    map snd (ranked_rows n (top_tracks tracks)) = take n (top_tracks tracks)) \<and>
   (sorted_wrt (\<lambda>a b. a_play_count (snd b) \<le> a_play_count (snd a)) (top_artists artists) \<and>
    mset (top_artists artists) = mset artists \<and>
    (\<forall>k. filter (\<lambda>x. a_play_count (snd x) = k) (top_artists artists) =
          filter (\<lambda>x. a_play_count (snd x) = k) artists) \<and>
    map fst (ranked_rows n (top_artists artists)) =
      map (\<lambda>i. 1 + int i) [0..<min n (length artists)] \<and>
    map snd (ranked_rows n (top_artists artists)) = take n (top_artists artists)) \<and>
   (sorted_wrt (\<lambda>a b. snd b \<le> snd a) (top_genres genre_ms) \<and>
    mset (top_genres genre_ms) = mset genre_ms \<and>
    (\<forall>k. filter (\<lambda>x. snd x = k) (top_genres genre_ms) = filter (\<lambda>x. snd x = k) genre_ms) \<and>
    map fst (ranked_rows n (top_genres genre_ms)) =
      map (\<lambda>i. 1 + int i) [0..<min n (length genre_ms)] \<and>
    map snd (ranked_rows n (top_genres genre_ms)) = take n (top_genres genre_ms))"
  unfolding top_tracks_def top_artists_def top_genres_def
  using py_sorted_rev_ranking[of "\<lambda>x. play_count (snd x)" tracks n]
    py_sorted_rev_ranking[of "\<lambda>x. a_play_count (snd x)" artists n]
    py_sorted_rev_ranking[of "\<lambda>x. snd x" genre_ms n]
  by blast

text \<open>
  On the example the two tracks with one play keep their order behind the track with two
  plays, and the two artists with three plays each keep theirs.
\<close>

theorem ranking_sorted_stable_ranked_witness:
  "map fst (top_tracks ex_tracks) = [''b'', ''a'', ''c''] \<and>
   map (\<lambda>r. (fst r, fst (snd r))) (ranked_rows 2 (top_tracks ex_tracks)) = [(1, ''b''), (2, ''a'')] \<and>
   map fst (top_artists ex_artists) = [''Art1'', ''Art2''] \<and>
   map fst (ranked_rows 50 (top_artists ex_artists)) = [1, 2] \<and>
   top_genres [(''rock'', 5), (''pop'', 9), (''folk'', 5)] = [(''pop'', 9), (''rock'', 5), (''folk'', 5)] \<and>
   sorted_wrt (\<lambda>a b. play_count (snd b) \<le> play_count (snd a)) (top_tracks ex_tracks) \<and>
   mset (top_tracks ex_tracks) = mset ex_tracks"
proof -
  have t: "map fst (top_tracks ex_tracks) = [''b'', ''a'', ''c'']"
    by (simp add: top_tracks_def py_sorted_rev_def ex_tracks_def)
  have r: "map (\<lambda>r. (fst r, fst (snd r))) (ranked_rows 2 (top_tracks ex_tracks)) = [(1, ''b''), (2, ''a'')]"
    by (simp add: ranked_rows_def top_tracks_def py_sorted_rev_def ex_tracks_def)
  have a: "map fst (top_artists ex_artists) = [''Art1'', ''Art2'']"
    by (simp add: top_artists_def py_sorted_rev_def ex_artists_def)
  have n: "map fst (ranked_rows 50 (top_artists ex_artists)) = [1, 2]"
    by (simp add: ranked_rows_def top_artists_def py_sorted_rev_def ex_artists_def)
  have g: "top_genres [(''rock'', 5), (''pop'', 9), (''folk'', 5)] =
             [(''pop'', 9), (''rock'', 5), (''folk'', 5)]"
    by (simp add: top_genres_def py_sorted_rev_def)
  from ranking_sorted_stable_ranked[of ex_tracks 2 ex_artists "[]"] t r a n g
  show ?thesis by blast
qed

section \<open>Genre cache\<close>

text \<open>Strict UTF-8: the width of a code point, and texts put together from valid texts.\<close>

lemma width2_le: "width2 r \<le> Suc (length r)"
  by (cases r) auto

lemma width3_le: "width3 a r \<le> Suc (length r)"
  by (cases "(a, r)" rule: width3.cases) auto

lemma width4_le: "width4 a r \<le> Suc (length r)"
  by (cases "(a, r)" rule: width4.cases) auto

lemma utf8_width_le: "utf8_width s \<le> length s"
  by (cases s) (auto simp: width2_le width3_le width4_le)

lemma width2_append: "width2 r \<noteq> 0 \<Longrightarrow> width2 (r @ t) = width2 r"
  by (cases r) auto

lemma width3_append: "width3 a r \<noteq> 0 \<Longrightarrow> width3 a (r @ t) = width3 a r"
  by (cases "(a, r)" rule: width3.cases) auto

lemma width4_append: "width4 a r \<noteq> 0 \<Longrightarrow> width4 a (r @ t) = width4 a r"
  by (cases "(a, r)" rule: width4.cases) auto

lemma utf8_width_append: "utf8_width s \<noteq> 0 \<Longrightarrow> utf8_width (s @ t) = utf8_width s"
  by (cases s) (auto simp: width2_append width3_append width4_append)

lemma width2_high: "width2 r \<noteq> 0 \<Longrightarrow> width2 r = 2 \<and> (\<forall>c \<in> set (take 1 r). 0x80 \<le> byte c)"
  by (cases r) (auto simp: cont_def split: if_splits)

lemma width3_high: "width3 a r \<noteq> 0 \<Longrightarrow> width3 a r = 3 \<and> (\<forall>c \<in> set (take 2 r). 0x80 \<le> byte c)"
  by (cases "(a, r)" rule: width3.cases) (auto simp: cont_def split: if_splits)

lemma width4_high: "width4 a r \<noteq> 0 \<Longrightarrow> width4 a r = 4 \<and> (\<forall>c \<in> set (take 3 r). 0x80 \<le> byte c)"
  by (cases "(a, r)" rule: width4.cases) (auto simp: cont_def split: if_splits)

lemma utf8_width_cases:
  assumes "utf8_width (a # r) \<noteq> 0"
  shows "(byte a < 0x80 \<and> utf8_width (a # r) = 1) \<or>
         (\<forall>c \<in> set (take (utf8_width (a # r)) (a # r)). 0x80 \<le> byte c)"
proof (cases "byte a < 0x80")
  case True
  then show ?thesis by simp
next
  case False
  note na = False
  show ?thesis
  proof (cases "0xC2 \<le> byte a \<and> byte a \<le> 0xDF")
    case True
    with assms na have "width2 r \<noteq> 0" by simp
    from width2_high[OF this] True na show ?thesis by simp
  next
    case False
    note n2 = False
    show ?thesis
    proof (cases "0xE0 \<le> byte a \<and> byte a \<le> 0xEF")
      case True
      with assms na n2 have "width3 a r \<noteq> 0" by simp
      from width3_high[OF this] True na n2 show ?thesis by simp
    next
      case False
      with assms na n2 have w: "width4 a r \<noteq> 0" and r: "0xF0 \<le> byte a \<and> byte a \<le> 0xF4"
        by (auto split: if_splits)
      from width4_high[OF w] r False na n2 show ?thesis by simp
    qed
  qed
qed

declare utf8_width.simps [simp del]

lemma utf8_valid_Cons:
  "utf8_valid (a # s) \<longleftrightarrow>
     utf8_width (a # s) \<noteq> 0 \<and> utf8_valid (drop (utf8_width (a # s)) (a # s))"
  by simp

lemma drop_append_le: "n \<le> length xs \<Longrightarrow> drop n (xs @ ys) = drop n xs @ ys"
  by simp

lemma utf8_valid_append: "utf8_valid a \<Longrightarrow> utf8_valid b \<Longrightarrow> utf8_valid (a @ b)"
proof (induction a rule: utf8_valid.induct)
  case 1
  then show ?case by simp
next
  case (2 x s)
  let ?w = "utf8_width (x # s)"
  from "2.prems"(1) have "?w \<noteq> 0 \<and> utf8_valid (drop ?w (x # s))"
    unfolding utf8_valid_Cons .
  then have w: "?w \<noteq> 0" and v: "utf8_valid (drop ?w (x # s))"
    by blast+
  have wa: "utf8_width ((x # s) @ b) = ?w"
    using w by (rule utf8_width_append)
  have "drop ?w ((x # s) @ b) = drop ?w (x # s) @ b"
    using utf8_width_le[of "x # s"] by (rule drop_append_le)
  moreover have "utf8_valid (drop ?w (x # s) @ b)"
    using w v "2.prems"(2) by (rule "2.IH")
  ultimately have "utf8_valid (drop (utf8_width (x # (s @ b))) (x # (s @ b)))"
    using wa by simp
  moreover have "utf8_width (x # (s @ b)) \<noteq> 0"
    using wa w by simp
  ultimately show ?case
    by (simp only: append_Cons utf8_valid_Cons) simp
qed

lemma ascii_valid: "\<forall>c \<in> set s. byte c < 0x80 \<Longrightarrow> utf8_valid s"
  by (induction s) (auto simp: utf8_width.simps)

lemma width2_take: "width2 r \<noteq> 0 \<Longrightarrow> width2 (take 1 r) = 2"
  by (cases r) (auto split: if_splits)

lemma width3_take: "width3 a r \<noteq> 0 \<Longrightarrow> width3 a (take 2 r) = 3"
  by (cases "(a, r)" rule: width3.cases) (auto split: if_splits)

lemma width4_take: "width4 a r \<noteq> 0 \<Longrightarrow> width4 a (take 3 r) = 4"
  by (cases "(a, r)" rule: width4.cases) (auto split: if_splits)

lemma utf8_width_take:
  assumes "utf8_width s \<noteq> 0"
  shows "utf8_width (take (utf8_width s) s) = utf8_width s"
proof (cases s)
  case Nil
  with assms show ?thesis by simp
next
  case (Cons a r)
  show ?thesis
  proof (cases "byte a < 0x80")
    case True
    with Cons show ?thesis by (simp add: utf8_width.simps)
  next
    case False
    note na = False
    show ?thesis
    proof (cases "0xC2 \<le> byte a \<and> byte a \<le> 0xDF")
      case True
      with assms na Cons have w: "width2 r \<noteq> 0" by (simp add: utf8_width.simps)
      from width2_high[OF w] width2_take[OF w] True na Cons show ?thesis
        by (simp add: utf8_width.simps)
    next
      case False
      note n2 = False
      show ?thesis
      proof (cases "0xE0 \<le> byte a \<and> byte a \<le> 0xEF")
        case True
        with assms na n2 Cons have w: "width3 a r \<noteq> 0" by (simp add: utf8_width.simps)
        from width3_high[OF w] width3_take[OF w] True na n2 Cons show ?thesis
          by (simp add: utf8_width.simps)
      next
        case False
        with assms na n2 Cons have w: "width4 a r \<noteq> 0"
          and r: "0xF0 \<le> byte a \<and> byte a \<le> 0xF4"
          by (auto simp: utf8_width.simps split: if_splits)
        from width4_high[OF w] width4_take[OF w] r False na n2 Cons show ?thesis
          by (simp add: utf8_width.simps)
      qed
    qed
  qed
qed

lemma high_valid:
  assumes "utf8_width s \<noteq> 0"
  shows "utf8_valid (take (utf8_width s) s)"
proof -
  let ?w = "utf8_width s"
  from assms obtain b q where t: "take ?w s = b # q"
    by (cases s; cases ?w) (auto simp: utf8_width.simps(1))
  have "utf8_width (b # q) = ?w"
    using utf8_width_take[OF assms] by (simp only: t)
  moreover have "drop ?w (b # q) = []"
  proof -
    have "drop ?w (take ?w s) = []" by simp
    then show ?thesis unfolding t .
  qed
  ultimately show ?thesis
    using assms unfolding t utf8_valid_Cons by simp
qed

declare utf8_valid.simps(2) [simp del]

text \<open>Escaping keeps a string valid, so the text of a cache of valid strings is valid.\<close>

lemma hex_digit_ascii: "d < 16 \<Longrightarrow> byte (hex_digit d) < 0x80"
  by (simp add: hex_digit_def)

lemma escape_char_high:
  assumes "0x80 \<le> byte c"
  shows "escape_char c = [c]"
proof -
  have "c \<noteq> CHR 0x22" using assms by auto
  moreover have "c \<noteq> CHR 0x5C" using assms by auto
  moreover have "c \<noteq> CHR 0x0A" using assms by auto
  moreover have "c \<noteq> CHR 0x0D" using assms by auto
  moreover have "c \<noteq> CHR 0x09" using assms by auto
  moreover have "c \<noteq> CHR 0x08" using assms by auto
  moreover have "c \<noteq> CHR 0x0C" using assms by auto
  moreover have "\<not> byte c < 0x20" using assms by simp
  ultimately show ?thesis by (simp add: escape_char_def)
qed

lemma escape_char_forms:
  "escape_char c = [c] \<or>
   escape_char c = [CHR 0x5C, CHR ''u'', CHR ''0'', CHR ''0'', hex_digit (byte c div 16),
                    hex_digit (byte c mod 16)] \<or>
   (\<exists>e. byte e < 0x80 \<and> escape_char c = [CHR 0x5C, e])"
proof -
  consider (quote) "c = CHR 0x22" | (backslash) "c = CHR 0x5C" | (nl) "c = CHR 0x0A"
    | (cr) "c = CHR 0x0D" | (tab) "c = CHR 0x09" | (bs) "c = CHR 0x08" | (ff) "c = CHR 0x0C"
    | (control) "c \<noteq> CHR 0x22" "c \<noteq> CHR 0x5C" "c \<noteq> CHR 0x0A" "c \<noteq> CHR 0x0D" "c \<noteq> CHR 0x09"
        "c \<noteq> CHR 0x08" "c \<noteq> CHR 0x0C" "byte c < 0x20"
    | (plain) "c \<noteq> CHR 0x22" "c \<noteq> CHR 0x5C" "c \<noteq> CHR 0x0A" "c \<noteq> CHR 0x0D" "c \<noteq> CHR 0x09"
        "c \<noteq> CHR 0x08" "c \<noteq> CHR 0x0C" "\<not> byte c < 0x20"
    by fastforce
  then show ?thesis
  proof cases
    case quote
    then have "byte (CHR 0x22) < 0x80 \<and> escape_char c = [CHR 0x5C, CHR 0x22]"
      by (simp add: escape_char_def)
    then show ?thesis by blast
  next
    case backslash
    then have "byte (CHR 0x5C) < 0x80 \<and> escape_char c = [CHR 0x5C, CHR 0x5C]"
      by (simp add: escape_char_def)
    then show ?thesis by blast
  next
    case nl
    then have "byte (CHR ''n'') < 0x80 \<and> escape_char c = [CHR 0x5C, CHR ''n'']"
      by (simp add: escape_char_def)
    then show ?thesis by blast
  next
    case cr
    then have "byte (CHR ''r'') < 0x80 \<and> escape_char c = [CHR 0x5C, CHR ''r'']"
      by (simp add: escape_char_def)
    then show ?thesis by blast
  next
    case tab
    then have "byte (CHR ''t'') < 0x80 \<and> escape_char c = [CHR 0x5C, CHR ''t'']"
      by (simp add: escape_char_def)
    then show ?thesis by blast
  next
    case bs
    then have "byte (CHR ''b'') < 0x80 \<and> escape_char c = [CHR 0x5C, CHR ''b'']"
      by (simp add: escape_char_def)
    then show ?thesis by blast
  next
    case ff
    then have "byte (CHR ''f'') < 0x80 \<and> escape_char c = [CHR 0x5C, CHR ''f'']"
      by (simp add: escape_char_def)
    then show ?thesis by blast
  next
    case control
    then have "escape_char c = [CHR 0x5C, CHR ''u'', CHR ''0'', CHR ''0'',
        hex_digit (byte c div 16), hex_digit (byte c mod 16)]"
      by (simp add: escape_char_def)
    then show ?thesis by blast
  next
    case plain
    then have "escape_char c = [c]"
      by (simp add: escape_char_def)
    then show ?thesis by blast
  qed
qed

lemma escape_char_ascii:
  assumes a: "byte c < 0x80"
  shows "\<forall>x \<in> set (escape_char c). byte x < 0x80"
proof -
  have 1: "byte (hex_digit (byte c div 16)) < 0x80"
    using a by (intro hex_digit_ascii) simp
  have 2: "byte (hex_digit (byte c mod 16)) < 0x80"
    by (intro hex_digit_ascii) simp
  from escape_char_forms[of c]
  consider "escape_char c = [c]"
    | "escape_char c = [CHR 0x5C, CHR ''u'', CHR ''0'', CHR ''0'', hex_digit (byte c div 16),
                        hex_digit (byte c mod 16)]"
    | e where "byte e < 0x80" "escape_char c = [CHR 0x5C, e]"
    by blast
  then show ?thesis
  proof cases
    case 1
    with a show ?thesis by simp
  next
    case 2
    have "\<forall>x \<in> set [CHR 0x5C, CHR ''u'', CHR ''0'', CHR ''0'', hex_digit (byte c div 16),
                        hex_digit (byte c mod 16)]. byte x < 0x80"
      using \<open>byte (hex_digit (byte c div 16)) < 0x80\<close> \<open>byte (hex_digit (byte c mod 16)) < 0x80\<close>
      by simp
    with 2 show ?thesis by (simp only:)
  next
    case 3
    then show ?thesis by simp
  qed
qed

lemma escape_high: "\<forall>c \<in> set p. 0x80 \<le> byte c \<Longrightarrow> concat (map escape_char p) = p"
  by (induction p) (simp_all add: escape_char_high)

lemma utf8_valid_escape: "utf8_valid s \<Longrightarrow> utf8_valid (concat (map escape_char s))"
proof (induction s rule: utf8_valid.induct)
  case 1
  then show ?case by simp
next
  case (2 a s)
  let ?w = "utf8_width (a # s)"
  let ?pre = "take ?w (a # s)"
  let ?post = "drop ?w (a # s)"
  from "2.prems" have "?w \<noteq> 0 \<and> utf8_valid ?post"
    unfolding utf8_valid_Cons .
  then have w: "?w \<noteq> 0" and v: "utf8_valid ?post" by blast+
  have post: "utf8_valid (concat (map escape_char ?post))"
    using w v by (rule "2.IH")
  have pre: "utf8_valid (concat (map escape_char ?pre))"
  proof -
    from utf8_width_cases[OF w]
    consider "byte a < 0x80 \<and> ?w = 1" | "\<forall>c \<in> set ?pre. 0x80 \<le> byte c"
      by blast
    then show ?thesis
    proof cases
      case 1
      then have "concat (map escape_char ?pre) = escape_char a" by simp
      moreover have "utf8_valid (escape_char a)"
        using 1 by (intro ascii_valid escape_char_ascii) simp
      ultimately show ?thesis by simp
    next
      case 2
      then have "concat (map escape_char ?pre) = ?pre" by (rule escape_high)
      with high_valid[OF w] show ?thesis by simp
    qed
  qed
  have "concat (map escape_char (?pre @ ?post)) =
          concat (map escape_char ?pre) @ concat (map escape_char ?post)"
    by (simp only: map_append concat_append)
  then have "concat (map escape_char (a # s)) =
          concat (map escape_char ?pre) @ concat (map escape_char ?post)"
    by (simp only: append_take_drop_id)
  with utf8_valid_append[OF pre post] show ?case by (simp only:)
qed

lemma utf8_valid_basestring: "utf8_valid s \<Longrightarrow> utf8_valid (encode_basestring s)"
proof -
  assume "utf8_valid s"
  then have "utf8_valid (concat (map escape_char s))" by (rule utf8_valid_escape)
  moreover have q: "utf8_valid [CHR 0x22]" by (rule ascii_valid) simp
  ultimately have "utf8_valid ([CHR 0x22] @ concat (map escape_char s) @ [CHR 0x22])"
    by (intro utf8_valid_append)
  then show ?thesis by (simp add: encode_basestring_def)
qed

lemma utf8_valid_join:
  "utf8_valid sep \<Longrightarrow> \<forall>x \<in> set xs. utf8_valid x \<Longrightarrow> utf8_valid (join sep xs)"
  by (induction sep xs rule: join.induct) (simp_all add: utf8_valid_append)

lemma utf8_valid_newline_indent: "utf8_valid (newline_indent k)"
  by (rule ascii_valid) (simp add: newline_indent_def)

lemma utf8_valid_encode_list:
  assumes "\<forall>t \<in> set tags. utf8_valid t"
  shows "utf8_valid (encode_list tags)"
proof (cases "tags = []")
  case True
  have "utf8_valid ''[]''" by (rule ascii_valid) simp
  with True show ?thesis by (simp add: encode_list_def)
next
  case False
  have sep: "utf8_valid ('','' @ newline_indent 2)"
    by (rule ascii_valid) (simp add: newline_indent_def)
  have "utf8_valid (join ('','' @ newline_indent 2) (map encode_basestring tags))"
    using sep assms by (intro utf8_valid_join) (simp_all add: utf8_valid_basestring)
  moreover have "utf8_valid ''[''" "utf8_valid '']''"
    by (rule ascii_valid, simp)+
  ultimately have "utf8_valid (''['' @ newline_indent 2 @
           join ('','' @ newline_indent 2) (map encode_basestring tags) @
           newline_indent 1 @ '']'')"
    by (intro utf8_valid_append utf8_valid_newline_indent)
  with False show ?thesis by (simp add: encode_list_def)
qed

lemma utf8_valid_encode_item:
  assumes "utf8_valid (fst kv)" "\<forall>t \<in> set (snd kv). utf8_valid t"
  shows "utf8_valid (encode_item kv)"
proof -
  have "utf8_valid '': ''" by (rule ascii_valid) simp
  then show ?thesis
    unfolding encode_item_def
    by (intro utf8_valid_append utf8_valid_basestring utf8_valid_encode_list assms)
qed

lemma utf8_valid_encode_cache:
  assumes "\<forall>kv \<in> set c. utf8_valid (fst kv) \<and> (\<forall>t \<in> set (snd kv). utf8_valid t)"
  shows "utf8_valid (encode_cache c)"
proof (cases "c = []")
  case True
  have "utf8_valid ''{}''" by (rule ascii_valid) simp
  with True show ?thesis by (simp add: encode_cache_def)
next
  case False
  have sep: "utf8_valid ('','' @ newline_indent 1)"
    by (rule ascii_valid) (simp add: newline_indent_def)
  have "utf8_valid (join ('','' @ newline_indent 1) (map encode_item c))"
    using sep assms by (intro utf8_valid_join) (simp_all add: utf8_valid_encode_item)
  moreover have "utf8_valid ''{''" "utf8_valid ''}''"
    by (rule ascii_valid, simp)+
  ultimately have "utf8_valid (''{'' @ newline_indent 1 @
           join ('','' @ newline_indent 1) (map encode_item c) @
           newline_indent 0 @ ''}'')"
    by (intro utf8_valid_append utf8_valid_newline_indent)
  with False show ?thesis by (simp add: encode_cache_def)
qed

text \<open>Reading back what was written: strings, lists, and the members of the dictionary.\<close>

lemma hex_value_digit: "d < 16 \<Longrightarrow> hex_value (hex_digit d) = Some d"
  by (auto simp: hex_value_def hex_digit_def)

lemma skip_ws_newline_indent: "skip_ws (newline_indent k @ s) = skip_ws s"
proof -
  have "dropWhile is_ws (replicate n (CHR 0x20) @ s) = dropWhile is_ws s" for n
    by (induction n) (auto simp: is_ws_def)
  then show ?thesis by (simp add: skip_ws_def newline_indent_def is_ws_def)
qed

lemma skip_ws_other: "\<not> is_ws c \<Longrightarrow> skip_ws (c # s) = c # s"
  by (simp add: skip_ws_def)

lemma skip_ws_space: "skip_ws (CHR 0x20 # s) = skip_ws s"
  by (simp add: skip_ws_def is_ws_def)

lemma scan_unicode_control:
  assumes "byte c < 0x20"
  shows "scan_unicode (CHR ''0'' # CHR ''0'' # hex_digit (byte c div 16) # hex_digit (byte c mod 16) # s)
         = Some ([c], 4)"
proof -
  have z: "hex_value (CHR ''0'') = Some 0" by (simp add: hex_value_def)
  have a: "hex_value (hex_digit (byte c div 16)) = Some (byte c div 16)"
    using assms by (intro hex_value_digit) simp
  have b: "hex_value (hex_digit (byte c mod 16)) = Some (byte c mod 16)"
    by (intro hex_value_digit) simp
  have d: "decode_uXXXX (CHR ''0'' # CHR ''0'' # hex_digit (byte c div 16) # hex_digit (byte c mod 16) # s)
             = Some (byte c)"
    by (simp add: decode_uXXXX_def z a b)
  show ?thesis using assms by (simp add: scan_unicode_def d chr_bytes_def)
qed

lemma scanstring_escape_char:
  "scanstring (escape_char c @ s) =
     (case scanstring s of Inl err \<Rightarrow> Inl err | Inr (t, r) \<Rightarrow> Inr (c # t, r))"
proof -
  consider (quote) "c = CHR 0x22" | (backslash) "c = CHR 0x5C" | (nl) "c = CHR 0x0A"
    | (cr) "c = CHR 0x0D" | (tab) "c = CHR 0x09" | (bs) "c = CHR 0x08" | (ff) "c = CHR 0x0C"
    | (control) "c \<noteq> CHR 0x22" "c \<noteq> CHR 0x5C" "c \<noteq> CHR 0x0A" "c \<noteq> CHR 0x0D" "c \<noteq> CHR 0x09"
        "c \<noteq> CHR 0x08" "c \<noteq> CHR 0x0C" "byte c < 0x20"
    | (plain) "c \<noteq> CHR 0x22" "c \<noteq> CHR 0x5C" "\<not> byte c < 0x20"
    by fastforce
  then show ?thesis
  proof cases
    case control
    then show ?thesis
      by (simp add: escape_char_def scan_unicode_control split: sum.splits)
  next
    case plain
    then have "escape_char c = [c]"
      by (auto simp: escape_char_def)
    with plain show ?thesis by (simp split: sum.splits)
  qed (simp_all add: escape_char_def unescape_def split: sum.splits)
qed

lemma scanstring_escaped:
  "scanstring (concat (map escape_char str) @ CHR 0x22 # rest) = Inr (str, rest)"
  by (induction str) (simp_all add: scanstring_escape_char)

lemma scan_once_string:
  "scan_once (Suc n) (encode_basestring str @ rest) = Inr (PStr str, rest)"
  by (simp add: encode_basestring_def scanstring_escaped)

lemma not_ws_chars [simp]:
  "\<not> is_ws (CHR 0x22)" "\<not> is_ws (CHR 0x5D)" "\<not> is_ws (CHR 0x7D)" "\<not> is_ws (CHR '','')"
  "\<not> is_ws (CHR '':'')" "\<not> is_ws (CHR 0x5B)" "\<not> is_ws (CHR 0x7B)"
  by (simp_all add: is_ws_def)

lemma join_Cons_Cons: "xs \<noteq> [] \<Longrightarrow> join sep (x # xs) = x @ sep @ join sep xs"
  by (cases xs) simp_all

lemma join_basestrings_quote:
  "tags \<noteq> [] \<longrightarrow> (\<exists>t. join sep (map encode_basestring tags) = CHR 0x22 # t)"
proof (cases tags)
  case Nil
  then show ?thesis by simp
next
  case (Cons x xs)
  then show ?thesis by (cases xs) (simp_all add: encode_basestring_def)
qed

lemma join_items_quote:
  "c \<noteq> [] \<longrightarrow> (\<exists>t. join sep (map encode_item c) = CHR 0x22 # t)"
proof (cases c)
  case Nil
  then show ?thesis by simp
next
  case (Cons x xs)
  then show ?thesis by (cases xs) (simp_all add: encode_item_def encode_basestring_def)
qed

lemma length_join_ge:
  "\<forall>x \<in> set xs. 1 \<le> length x \<Longrightarrow> length xs \<le> length (join sep xs)"
  by (induction sep xs rule: join.induct) auto

lemma length_encode_list: "length tags + 2 \<le> length (encode_list tags)"
proof (cases "tags = []")
  case True
  then show ?thesis by (simp add: encode_list_def)
next
  case False
  have "length (map encode_basestring tags)
          \<le> length (join (CHR '','' # newline_indent 2) (map encode_basestring tags))"
    by (rule length_join_ge) (simp add: encode_basestring_def)
  with False show ?thesis by (simp add: encode_list_def)
qed

lemma length_encode_item: "length (snd kv) + 6 \<le> length (encode_item kv)"
  using length_encode_list[of "snd kv"] by (simp add: encode_item_def encode_basestring_def)

lemma parse_array_elements:
  "tags \<noteq> [] \<Longrightarrow> length tags < n \<Longrightarrow>
   parse_array n (join (CHR '','' # newline_indent 2) (map encode_basestring tags) @
                  newline_indent 1 @ CHR 0x5D # rest) vs
     = Inr (PList (vs @ map PStr tags), rest)"
proof (induction tags arbitrary: n vs rule: induct_list012)
  case 1
  then show ?case by simp
next
  case (2 t)
  then obtain m where n: "n = Suc (Suc m)" by (cases n; cases "n - 1") auto
  show ?case
    by (simp add: n scan_once_string skip_ws_newline_indent skip_ws_other)
next
  case (3 t u tags)
  then obtain m where n: "n = Suc (Suc m)" by (cases n; cases "n - 1") auto
  from join_basestrings_quote[of "u # tags" "CHR '','' # newline_indent 2"]
  obtain w where w: "join (CHR '','' # newline_indent 2) (map encode_basestring (u # tags)) = CHR 0x22 # w"
    by auto
  have ih: "parse_array (Suc m)
       (join (CHR '','' # newline_indent 2) (map encode_basestring (u # tags)) @
        newline_indent 1 @ CHR 0x5D # rest) (vs @ [PStr t])
     = Inr (PList ((vs @ [PStr t]) @ map PStr (u # tags)), rest)"
    using "3.prems" by (intro "3.IH"(2)) (simp_all add: n)
  have sk: "skip_ws (newline_indent 2 @
        join (CHR '','' # newline_indent 2) (map encode_basestring (u # tags)) @
        newline_indent 1 @ CHR 0x5D # rest)
      = join (CHR '','' # newline_indent 2) (map encode_basestring (u # tags)) @
        newline_indent 1 @ CHR 0x5D # rest"
    unfolding skip_ws_newline_indent w by (simp add: skip_ws_other)
  have "parse_array (Suc (Suc m))
       (encode_basestring t @ (CHR '','' # newline_indent 2 @
          join (CHR '','' # newline_indent 2) (map encode_basestring (u # tags)) @
          newline_indent 1 @ CHR 0x5D # rest)) vs
     = Inr (PList ((vs @ [PStr t]) @ map PStr (u # tags)), rest)"
    unfolding parse_array.simps scan_once_string
    using ih sk by (simp add: skip_ws_other)
  then show ?case by (simp add: n)
qed

lemma scan_once_list:
  "length tags < n \<Longrightarrow>
   scan_once (Suc n) (encode_list tags @ rest) = Inr (PList (map PStr tags), rest)"
proof (cases "tags = []")
  case True
  then show ?thesis by (simp add: encode_list_def skip_ws_other)
next
  case False
  assume l: "length tags < n"
  from False join_basestrings_quote[of tags "CHR '','' # newline_indent 2"]
  obtain w where w: "join (CHR '','' # newline_indent 2) (map encode_basestring tags) = CHR 0x22 # w"
    by auto
  have sk: "skip_ws (newline_indent 2 @
        join (CHR '','' # newline_indent 2) (map encode_basestring tags) @
        newline_indent 1 @ CHR 0x5D # rest)
      = CHR 0x22 # w @ newline_indent 1 @ CHR 0x5D # rest"
    unfolding skip_ws_newline_indent w by (simp add: skip_ws_other)
  have "parse_array n (CHR 0x22 # w @ newline_indent 1 @ CHR 0x5D # rest) []
          = Inr (PList (map PStr tags), rest)"
    using parse_array_elements[OF False l, of rest "[]"] by (simp add: w)
  with False sk show ?thesis by (simp add: encode_list_def)
qed

lemma scan_item:
  assumes "length (snd kv) + 2 \<le> n"
  shows "scanstring (concat (map escape_char (fst kv)) @ CHR 0x22 # CHR '':'' # CHR 0x20 #
                     encode_list (snd kv) @ rest)
           = Inr (fst kv, CHR '':'' # CHR 0x20 # encode_list (snd kv) @ rest) \<and>
         scan_once n (skip_ws (CHR 0x20 # encode_list (snd kv) @ rest))
           = Inr (PList (map PStr (snd kv)), rest)"
proof -
  from assms obtain m where n: "n = Suc m" and m: "length (snd kv) < m"
    by (cases n) auto
  have "\<exists>w. encode_list (snd kv) = CHR 0x5B # w"
    by (simp add: encode_list_def)
  then obtain w where w: "encode_list (snd kv) = CHR 0x5B # w" by auto
  have "skip_ws (CHR 0x20 # encode_list (snd kv) @ rest) = encode_list (snd kv) @ rest"
    unfolding skip_ws_space w by (simp add: skip_ws_other)
  then show ?thesis
    using scan_once_list[OF m, of rest] by (simp add: n scanstring_escaped)
qed

lemma parse_object_items:
  "c \<noteq> [] \<Longrightarrow> length (join (CHR '','' # newline_indent 1) (map encode_item c)) \<le> n \<Longrightarrow>
   parse_object n (join (CHR '','' # newline_indent 1) (map encode_item c) @
                   newline_indent 0 @ CHR 0x7D # rest) pairs
     = Inr (PDict (py_dict (pairs @ map item_value c)), rest)"
proof (induction c arbitrary: n pairs rule: induct_list012)
  case 1
  then show ?case by simp
next
  case (2 kv)
  from "2.prems" length_encode_item[of kv] obtain m where
    n: "n = Suc m" and m: "length (snd kv) + 2 \<le> m"
    by (cases n) auto
  from scan_item[OF m, of "newline_indent 0 @ CHR 0x7D # rest"]
  show ?case
    by (simp add: n encode_item_def encode_basestring_def skip_ws_other
        skip_ws_newline_indent item_value_def)
next
  case (3 kv kv' c)
  let ?sep = "CHR '','' # newline_indent 1"
  let ?tail = "join ?sep (map encode_item (kv' # c)) @ newline_indent 0 @ CHR 0x7D # rest"
  from "3.prems" length_encode_item[of kv] obtain m where
    n: "n = Suc m" and m: "length (snd kv) + 2 \<le> m"
    and l: "length (join ?sep (map encode_item (kv' # c))) \<le> m"
    by (cases n) auto
  from join_items_quote[of "kv' # c" ?sep]
  obtain w where w: "join ?sep (map encode_item (kv' # c)) = CHR 0x22 # w"
    by auto
  have sk: "skip_ws (newline_indent 1 @ ?tail) = ?tail"
    unfolding skip_ws_newline_indent w by (simp add: skip_ws_other)
  have ih: "parse_object m ?tail (pairs @ [item_value kv])
     = Inr (PDict (py_dict ((pairs @ [item_value kv]) @ map item_value (kv' # c))), rest)"
    using l by (intro "3.IH"(2)) simp_all
  from scan_item[OF m, of "?sep @ ?tail"]
  have "parse_object (Suc m)
       (encode_item kv @ ?sep @ ?tail) pairs
     = Inr (PDict (py_dict ((pairs @ [item_value kv]) @ map item_value (kv' # c))), rest)"
    using ih sk
    by (simp add: encode_item_def encode_basestring_def skip_ws_other item_value_def)
  then show ?case by (simp add: n)
qed

lemma dict_set_new: "k \<notin> set (dict_keys d) \<Longrightarrow> dict_set k v d = d @ [(k, v)]"
  by (induction d) (auto simp: dict_keys_def)

lemma fold_dict_set_distinct:
  "distinct (map fst (acc @ ps)) \<Longrightarrow>
   fold (\<lambda>kv d. dict_set (fst kv) (snd kv) d) ps acc = acc @ ps"
proof (induction ps arbitrary: acc)
  case Nil
  then show ?case by simp
next
  case (Cons p ps)
  from Cons.prems have "fst p \<notin> set (dict_keys acc)"
    by (auto simp: dict_keys_def)
  then have "dict_set (fst p) (snd p) acc = acc @ [p]"
    by (simp add: dict_set_new)
  moreover from Cons.prems have "distinct (map fst ((acc @ [p]) @ ps))" by simp
  ultimately show ?case using Cons.IH[of "acc @ [p]"] by simp
qed

lemma py_dict_distinct: "distinct (map fst ps) \<Longrightarrow> py_dict ps = ps"
  using fold_dict_set_distinct[of "[]" ps] by (simp add: py_dict_def)

lemma scan_once_object:
  "skip_ws s = CHR 0x22 # t \<Longrightarrow>
   scan_once (Suc n) (CHR 0x7B # s) = parse_object n (CHR 0x22 # t) []"
  by simp

lemma json_loads_encode_cache:
  assumes "distinct (dict_keys c)"
  shows "json_loads (encode_cache c) = Inr (cache_value c)"
proof (cases "c = []")
  case True
  then show ?thesis
    by (simp add: json_loads_def encode_cache_def cache_value_def skip_ws_other skip_ws_def)
next
  case False
  define sep where "sep = CHR '','' # newline_indent 1"
  define items where "items = join sep (map encode_item c)"
  define tail where "tail = newline_indent 0 @ [CHR 0x7D]"
  define N where "N = length (encode_cache c)"
  have e: "encode_cache c = CHR 0x7B # newline_indent 1 @ items @ tail"
    using False by (simp add: encode_cache_def items_def sep_def tail_def)
  from False join_items_quote[of c sep]
  obtain w where w: "items = CHR 0x22 # w" by (auto simp: items_def)
  have sk: "skip_ws (newline_indent 1 @ items @ tail) = CHR 0x22 # (w @ tail)"
    unfolding skip_ws_newline_indent w by (simp add: skip_ws_other)
  have len: "length items \<le> N"
    by (simp add: e N_def)
  have d: "distinct (map fst (map item_value c))"
    using assms by (simp add: dict_keys_def item_value_def comp_def)
  have "parse_object N (items @ newline_indent 0 @ CHR 0x7D # []) []
          = Inr (PDict (py_dict ([] @ map item_value c)), [])"
    using False len unfolding items_def sep_def by (rule parse_object_items)
  then have po: "parse_object N (CHR 0x22 # (w @ tail)) [] = Inr (PDict (map item_value c), [])"
    using py_dict_distinct[OF d] by (simp add: w tail_def)
  have "skip_ws (encode_cache c) = encode_cache c"
    unfolding e by (rule skip_ws_other) simp
  then have "scan_once (Suc N) (skip_ws (encode_cache c))
          = scan_once (Suc N) (CHR 0x7B # newline_indent 1 @ items @ tail)"
    by (simp add: e)
  also have "\<dots> = parse_object N (CHR 0x22 # (w @ tail)) []"
    using sk by (rule scan_once_object)
  finally have so: "scan_once (Suc (length (encode_cache c))) (skip_ws (encode_cache c))
          = Inr (PDict (map item_value c), [])"
    using po by (simp add: N_def)
  have bom: "take 3 (encode_cache c) \<noteq> [CHR 0xEF, CHR 0xBB, CHR 0xBF]"
    unfolding e by (simp add: newline_indent_def)
  show ?thesis
    unfolding json_loads_def using bom so
    by (simp add: cache_value_def item_value_def skip_ws_def)
qed

text \<open>Different dictionaries are different values of \<open>json.load\<close>.\<close>

lemma cache_value_inject:
  "cache_value M = cache_value M' \<longleftrightarrow> M = M'"
proof -
  have "inj (\<lambda>kv :: string \<times> string list. (fst kv, PList (map PStr (snd kv))))"
    by (auto simp add: inj_on_def prod_eq_iff dest: map_injective)
  then show ?thesis
    by (auto simp add: cache_value_def dest: map_injective)
qed

text \<open>
  Claim C6, as amended. For every dictionary \<open>M\<close> from artist names to lists of tags (no
  key twice) in which every string can be encoded in UTF-8, that is, holds no surrogate
  code point, saving \<open>M\<close> writes the file without an error, whatever the file held, and
  loading that file yields exactly \<open>M\<close>; and loading when the file does not exist yields
  the empty dictionary without an error.
\<close>

theorem genre_cache_round_trip:
  assumes "distinct (dict_keys M)" and "utf8_strings M"
  shows "save_genre_cache_file M d = Inr (Some (encode_cache M)) \<and>
         load_genre_cache_file (Some (encode_cache M)) = Inr (cache_value M) \<and>
         load_genre_cache_file None = Inr (PDict [])"
proof -
  have "\<forall>kv \<in> set M. utf8_valid (fst kv) \<and> (\<forall>t \<in> set (snd kv). utf8_valid t)"
    using assms(2) by (simp add: utf8_strings_def list_all_iff)
  then have v: "utf8_valid (encode_cache M)"
    by (rule utf8_valid_encode_cache)
  then have s: "save_genre_cache_file M d = Inr (Some (encode_cache M))"
    by (simp add: save_genre_cache_file_def write_text_def)
  have l: "load_genre_cache_file (Some (encode_cache M)) = Inr (cache_value M)"
    using v json_loads_encode_cache[OF assms(1)]
    by (simp add: load_genre_cache_file_def read_text_def)
  have "load_genre_cache_file None = Inr (PDict [])"
    by (simp add: load_genre_cache_file_def)
  with s l show ?thesis by blast
qed

text \<open>
  On the example the names with an accent, a backslash and a tab and the tag with a
  quote all come back as they were saved.
\<close>

theorem genre_cache_round_trip_witness:
  "distinct (dict_keys ex_cache) \<and> utf8_strings ex_cache \<and>
   save_genre_cache_file ex_cache None = Inr (Some (encode_cache ex_cache)) \<and>
   load_genre_cache_file (Some (encode_cache ex_cache)) =
     Inr (PDict [(''Sigur R'' @ [CHR 0xC3, CHR 0xB3] @ ''s'', PList [PStr ''post-rock'', PStr ''ambient'']),
                (''AC'' @ [CHR 0x5C] @ ''DC'', PList []),
                (''Tab'' @ [CHR 0x09] @ ''Name'', PList [PStr (''a'' @ [CHR 0x22] @ ''b'')])]) \<and>
   encode_basestring (''Tab'' @ [CHR 0x09] @ ''Name'') =
     [CHR 0x22] @ ''Tab'' @ [CHR 0x5C] @ ''tName'' @ [CHR 0x22]"
proof -
  have a: "distinct (dict_keys ex_cache)"
    by code_simp
  have b: "utf8_strings ex_cache"
    by code_simp
  have c: "cache_value ex_cache =
     PDict [(''Sigur R'' @ [CHR 0xC3, CHR 0xB3] @ ''s'', PList [PStr ''post-rock'', PStr ''ambient'']),
            (''AC'' @ [CHR 0x5C] @ ''DC'', PList []),
            (''Tab'' @ [CHR 0x09] @ ''Name'', PList [PStr (''a'' @ [CHR 0x22] @ ''b'')])]"
    by (simp add: cache_value_def ex_cache_def)
  have e: "encode_basestring (''Tab'' @ [CHR 0x09] @ ''Name'') =
     [CHR 0x22] @ ''Tab'' @ [CHR 0x5C] @ ''tName'' @ [CHR 0x22]"
    by code_simp
  from genre_cache_round_trip[OF a b, of None] a b c e show ?thesis
    by (simp only:)
qed

text \<open>
  The claim as stated fails on the dictionary whose only artist name is the surrogate
  U+D800, a string that \<open>json.load\<close> builds from the escape of that code point in a history file:
  the write raises \<open>UnicodeEncodeError\<close>, so nothing can be loaded back.
\<close>

theorem surrogate_name_counterexample:
  "distinct (dict_keys ex_surrogate_cache) \<and>
   save_genre_cache_file ex_surrogate_cache None = Inl UnicodeEncodeError"
  by code_simp

section \<open>Genre lookup\<close>

lemma fetch_one_cases:
  obtains (stored) tags where
      "try_lookup (src (length (requests st)) n) = Inr tags"
      "fetch_one src n (st, f) =
         (\<lparr>cache = dict_set n tags (cache st),
           requests = requests st @ [(n, dict_keys (cache st))]\<rparr>, f)"
  | (failed) err where
      "try_lookup (src (length (requests st)) n) = Inl err"
      "fetch_one src n (st, f) =
         (\<lparr>cache = cache st, requests = requests st @ [(n, dict_keys (cache st))]\<rparr>, f @ [n])"
  by (cases "try_lookup (src (length (requests st)) n)") (auto simp: fetch_one_def Let_def)












lemma fetch_one_failed_subset:
  assumes "fetch_one src n (st, f) = (st', f')"
  shows "set f' \<subseteq> insert n (set f)"
  using assms by (cases rule: fetch_one_cases[of src st n f]) auto


lemma fetch_names_failed_subset:
  "fetch_names src ns (st, f) = (st', f') \<Longrightarrow> set f' \<subseteq> set f \<union> set ns"
proof (induction ns arbitrary: st f)
  case Nil
  then show ?case by simp
next
  case (Cons n ns)
  obtain st1 f1 where s: "fetch_one src n (st, f) = (st1, f1)" by (cases "fetch_one src n (st, f)")
  with Cons.prems have r: "fetch_names src ns (st1, f1) = (st', f')" by simp
  from fetch_one_failed_subset[OF s] Cons.IH[OF r] show ?case by auto
qed




text \<open>
  The log only grows, so a request keeps its number; a name whose requests all fail
  stays pending through every round.
\<close>

lemma fetch_one_requests:
  assumes "fetch_one src m (st, f) = (st', f')"
  shows "requests st' = requests st @ [(m, dict_keys (cache st))]"
  using assms by (cases rule: fetch_one_cases[of src st m f]) auto









text \<open>The requests of a round are for its pending names, none of them a key of the cache.\<close>

lemma fetch_names_requested:
  "fetch_names src ns (st, f) = (st', f') \<Longrightarrow>
   fst ` set (requests st') \<subseteq> fst ` set (requests st) \<union> set ns"
proof (induction ns arbitrary: st f)
  case Nil
  then show ?case by simp
next
  case (Cons m ns)
  obtain st1 f1 where s: "fetch_one src m (st, f) = (st1, f1)" by (cases "fetch_one src m (st, f)")
  with Cons.prems have r: "fetch_names src ns (st1, f1) = (st', f')" by simp
  from fetch_one_requests[OF s] Cons.IH[OF r] show ?case by auto
qed

lemma attempts_requested:
  "attempts src r tf st = (st', left) \<Longrightarrow>
   fst ` set (requests st') \<subseteq> fst ` set (requests st) \<union> set tf"
proof (induction r arbitrary: tf st)
  case 0
  then show ?case by simp
next
  case (Suc r)
  show ?case
  proof (cases "tf = []")
    case True
    with Suc.prems show ?thesis by simp
  next
    case False
    obtain st1 f1 where s: "fetch_names src tf (st, []) = (st1, f1)"
      by (cases "fetch_names src tf (st, [])")
    with False Suc.prems have r: "attempts src r f1 st1 = (st', left)" by simp
    have a: "fst ` set (requests st1) \<subseteq> fst ` set (requests st) \<union> set tf"
      using fetch_names_requested[OF s] .
    have b: "set f1 \<subseteq> set tf"
      using fetch_names_failed_subset[OF s] by simp
    have c: "fst ` set (requests st') \<subseteq> fst ` set (requests st1) \<union> set f1"
      using Suc.IH[OF r] .
    show ?thesis
    proof
      fix x assume "x \<in> fst ` set (requests st')"
      with c have "x \<in> fst ` set (requests st1) \<or> x \<in> set f1" by blast
      with a b show "x \<in> fst ` set (requests st) \<union> set tf" by blast
    qed
  qed
qed

lemma fetch_one_pending_ok:
  assumes "fetch_one src m (st, f) = (st', f')" "pending_ok st (f @ m # ns)"
  shows "pending_ok st' (f' @ ns)"
proof -
  from assms(2) have d: "distinct (f @ m # ns)"
    and k: "set (f @ m # ns) \<inter> set (dict_keys (cache st)) = {}"
    and q: "fresh_requests st"
    by (simp_all add: pending_ok_def)
  from k have mk: "m \<notin> set (dict_keys (cache st))" by auto
  have q': "fresh_requests st'"
    using fetch_one_requests[OF assms(1)] q mk by (simp add: fresh_requests_def)
  show ?thesis
  proof (cases rule: fetch_one_cases[of src st m f])
    case (stored tags)
    with assms(1) have e: "f' = f" "cache st' = dict_set m tags (cache st)" by auto
    from d have "distinct (f @ ns)" "m \<notin> set (f @ ns)" by auto
    moreover from k have "set (f @ ns) \<inter> set (dict_keys (cache st)) = {}" by auto
    ultimately show ?thesis using q' e by (simp add: pending_ok_def dict_keys_set)
  next
    case (failed err)
    with assms(1) have e: "f' = f @ [m]" "cache st' = cache st" by auto
    from d have "distinct ((f @ [m]) @ ns)" by simp
    moreover from k have "set ((f @ [m]) @ ns) \<inter> set (dict_keys (cache st)) = {}" by simp
    ultimately show ?thesis using q' e by (simp add: pending_ok_def)
  qed
qed

lemma fetch_names_pending_ok:
  "fetch_names src ns (st, f) = (st', f') \<Longrightarrow> pending_ok st (f @ ns) \<Longrightarrow> pending_ok st' f'"
proof (induction ns arbitrary: st f)
  case Nil
  then show ?case by simp
next
  case (Cons m ns)
  obtain st1 f1 where s: "fetch_one src m (st, f) = (st1, f1)" by (cases "fetch_one src m (st, f)")
  with Cons.prems have r: "fetch_names src ns (st1, f1) = (st', f')" by simp
  from fetch_one_pending_ok[OF s Cons.prems(2)] Cons.IH[OF r] show ?case by simp
qed

lemma attempts_pending_ok:
  "attempts src r tf st = (st', left) \<Longrightarrow> pending_ok st tf \<Longrightarrow> pending_ok st' left"
proof (induction r arbitrary: tf st)
  case 0
  then show ?case by simp
next
  case (Suc r)
  show ?case
  proof (cases "tf = []")
    case True
    with Suc.prems show ?thesis by simp
  next
    case False
    obtain st1 f1 where s: "fetch_names src tf (st, []) = (st1, f1)"
      by (cases "fetch_names src tf (st, [])")
    with False Suc.prems have r: "attempts src r f1 st1 = (st', left)" by simp
    from fetch_names_pending_ok[OF s] Suc.prems(2) Suc.IH[OF r] show ?thesis by simp
  qed
qed

lemma fetch_artist_genres_run:
  obtains st left where
    "attempts src (nat max_retries)
       (filter (\<lambda>n. \<not> dict_contains (load_genre_cache fs) n) names)
       \<lparr>cache = load_genre_cache fs, requests = []\<rparr> = (st, left)"
    "fetch_artist_genres src fs names max_retries =
       \<lparr>returned = result_dict (give_up left (cache st)) names,
        fs_after = save_genre_cache (give_up left (cache st)) fs,
        lookups = requests st\<rparr>"
proof -
  obtain st left where a: "attempts src (nat max_retries)
       (filter (\<lambda>n. \<not> dict_contains (load_genre_cache fs) n) names)
       \<lparr>cache = load_genre_cache fs, requests = []\<rparr> = (st, left)"
    by (cases "attempts src (nat max_retries)
       (filter (\<lambda>n. \<not> dict_contains (load_genre_cache fs) n) names)
       \<lparr>cache = load_genre_cache fs, requests = []\<rparr>")
  then have "fetch_artist_genres src fs names max_retries =
       \<lparr>returned = result_dict (give_up left (cache st)) names,
        fs_after = save_genre_cache (give_up left (cache st)) fs,
        lookups = requests st\<rparr>"
    by (simp add: fetch_artist_genres_def Let_def)
  with a that show ?thesis by blast
qed


text \<open>The sort of the decorated tags is the stable sort by relevance.\<close>

lemma tag_keys_well_formed:
  "\<forall>t \<in> set tags. well_formed_tag t \<Longrightarrow> tag_keys tags = Inr (map tag_relevance tags)"
  by (induction tags) (auto simp: well_formed_tag_def tag_relevance_def split: count_value.splits)

lemma tag_names_well_formed:
  "\<forall>t \<in> set tags. well_formed_tag t \<Longrightarrow>
   \<exists>names. tag_names tags = Inr names \<and> map Some names = map tag_name tags"
  by (induction tags) (auto simp: well_formed_tag_def)

lemma insort_decorated:
  "insort_key (\<lambda>p. - fst p) (f x, x) (map (\<lambda>y. (f y, y)) ys) =
     map (\<lambda>y. (f y, y)) (insort_key (\<lambda>y. - f y) x ys)"
  by (induction ys) auto

lemma sort_decorated:
  "sort_key (\<lambda>p. - fst p) (map (\<lambda>y. (f y, y)) xs) = map (\<lambda>y. (f y, y)) (sort_key (\<lambda>y. - f y) xs)"
  by (induction xs) (auto simp: insort_decorated)

lemma zip_decorated: "zip (map f xs) xs = map (\<lambda>y. (f y, y)) xs"
  by (induction xs) auto

lemma py_sorted_rev_decorated:
  "map snd (py_sorted_rev fst (zip (map f xs) xs)) = py_sorted_rev f xs"
  by (simp add: py_sorted_rev_def zip_decorated sort_decorated comp_def)

text \<open>The run of the example: one success, one name given up after three rounds.\<close>

lemma ex_run:
  "fetch_artist_genres ex_source ex_fs ex_names 3 =
     \<lparr>returned = [(''Quiet'', []),
                  (''NewArtist'', [''rock'', ''punk'', ''pop'', ''indie'', ''emo'']),
                  (''Ghost'', [])],
      fs_after =
        \<lparr>cache_file = Some [(''Old'', [''jazz'']), (''Quiet'', []),
                            (''NewArtist'', [''rock'', ''punk'', ''pop'', ''indie'', ''emo'']),
                            (''Ghost'', [])],
         dumps = 1\<rparr>,
      lookups = [(''NewArtist'', [''Old'', ''Quiet'']),
                 (''Ghost'', [''Old'', ''Quiet'', ''NewArtist'']),
                 (''Ghost'', [''Old'', ''Quiet'', ''NewArtist'']),
                 (''Ghost'', [''Old'', ''Quiet'', ''NewArtist''])]\<rparr>"
  by code_simp





text \<open>
  Claim C5. Every request is for a requested name that is not a key of the loaded cache,
  whatever list the cached name holds; and when no name is requested twice, no request
  is for a name that is a key of the cache at the moment the request is sent.
\<close>

theorem no_lookup_for_cached_name:
  "(\<forall>q \<in> set (lookups (fetch_artist_genres src fs names max_retries)).
      fst q \<in> set names \<and> \<not> dict_contains (load_genre_cache fs) (fst q)) \<and>
   (distinct names \<longrightarrow>
      (\<forall>q \<in> set (lookups (fetch_artist_genres src fs names max_retries)). fst q \<notin> set (snd q)))"
proof -
  obtain st left where a: "attempts src (nat max_retries)
       (filter (\<lambda>n. \<not> dict_contains (load_genre_cache fs) n) names)
       \<lparr>cache = load_genre_cache fs, requests = []\<rparr> = (st, left)"
    and r: "fetch_artist_genres src fs names max_retries =
       \<lparr>returned = result_dict (give_up left (cache st)) names,
        fs_after = save_genre_cache (give_up left (cache st)) fs,
        lookups = requests st\<rparr>"
    by (rule fetch_artist_genres_run)
  have one: "fst q \<in> set names \<and> \<not> dict_contains (load_genre_cache fs) (fst q)"
    if "q \<in> set (requests st)" for q
  proof -
    from that have "fst q \<in> fst ` set (requests st)" by simp
    with attempts_requested[OF a]
    have "fst q \<in> set (filter (\<lambda>n. \<not> dict_contains (load_genre_cache fs) n) names)" by auto
    then show ?thesis by simp
  qed
  have two: "fst q \<notin> set (snd q)" if "distinct names" "q \<in> set (requests st)" for q
  proof -
    have "pending_ok \<lparr>cache = load_genre_cache fs, requests = []\<rparr>
            (filter (\<lambda>n. \<not> dict_contains (load_genre_cache fs) n) names)"
      using that(1) by (auto simp: pending_ok_def fresh_requests_def dict_contains_def)
    from attempts_pending_ok[OF a this] that(2) show ?thesis
      by (simp add: pending_ok_def fresh_requests_def)
  qed
  show ?thesis unfolding r using one two by simp
qed

theorem no_lookup_for_cached_name_witness:
  "distinct ex_names \<and>
   dict_lookup (load_genre_cache ex_fs) ''Quiet'' = Some [] \<and>
   list_all (\<lambda>q. fst q \<in> set ex_names \<and> \<not> dict_contains (load_genre_cache ex_fs) (fst q))
     (lookups (fetch_artist_genres ex_source ex_fs ex_names 3)) \<and>
   list_all (\<lambda>q. fst q \<notin> set (snd q)) (lookups (fetch_artist_genres ex_source ex_fs ex_names 3)) \<and>
   map fst (lookups (fetch_artist_genres ex_source ex_fs ex_names 3)) =
     [''NewArtist'', ''Ghost'', ''Ghost'', ''Ghost'']"
proof -
  have d: "distinct ex_names"
    by (simp add: ex_names_def)
  have q: "dict_lookup (load_genre_cache ex_fs) ''Quiet'' = Some []"
    by (simp add: load_genre_cache_def ex_fs_def)
  have m: "map fst (lookups (fetch_artist_genres ex_source ex_fs ex_names 3)) =
     [''NewArtist'', ''Ghost'', ''Ghost'', ''Ghost'']"
    by (simp add: ex_run)
  from no_lookup_for_cached_name[of ex_source ex_fs ex_names 3] d q m
  show ?thesis unfolding list_all_iff by blast
qed



text \<open>
  Claim C7. When a request returns a matched artist whose tags are proper (name, count)
  pairs, the list stored for the name holds the names of the first five tags of the
  list sorted by count in descending order, tags with equal counts in the order of the
  source; it has at most five names.
\<close>

theorem stored_tags_top_five:
  assumes wf: "\<forall>t \<in> set tags. well_formed_tag t"
    and out: "src (length (requests st)) name = Returns (Some (a # rest))"
    and tl: "tag_list a = Some tags"
  shows "\<exists>names.
           fetch_one src name (st, failed) =
             (\<lparr>cache = dict_set name names (cache st),
               requests = requests st @ [(name, dict_keys (cache st))]\<rparr>, failed) \<and>
           map Some names = map tag_name (take 5 (py_sorted_rev tag_relevance tags)) \<and>
           length names \<le> 5 \<and>
           sorted_wrt (\<lambda>t u. tag_relevance u \<le> tag_relevance t) (py_sorted_rev tag_relevance tags) \<and>
           mset (py_sorted_rev tag_relevance tags) = mset tags \<and>
           (\<forall>k. filter (\<lambda>t. tag_relevance t = k) (py_sorted_rev tag_relevance tags) =
                filter (\<lambda>t. tag_relevance t = k) tags)"
proof -
  let ?top = "take 5 (py_sorted_rev tag_relevance tags)"
  have "set ?top \<subseteq> set (py_sorted_rev tag_relevance tags)" by (rule set_take_subset)
  also have "\<dots> = set tags" by (simp add: py_sorted_rev_def)
  finally have "\<forall>t \<in> set ?top. well_formed_tag t" using wf by blast
  from tag_names_well_formed[OF this] obtain names where
    n: "tag_names ?top = Inr names" and m: "map Some names = map tag_name ?top" by blast
  have "top_tags tags = Inr names"
    using n by (simp add: top_tags_def tag_keys_well_formed[OF wf] py_sorted_rev_decorated)
  then have "try_lookup (src (length (requests st)) name) = Inr names"
    using out tl by simp
  then have f: "fetch_one src name (st, failed) =
             (\<lparr>cache = dict_set name names (cache st),
               requests = requests st @ [(name, dict_keys (cache st))]\<rparr>, failed)"
    by (simp add: fetch_one_def Let_def)
  from m have "length names = length ?top" by (metis length_map)
  then have "length names \<le> 5" by simp
  with f m show ?thesis
    by (auto simp: py_sorted_rev_descending py_sorted_rev_mset py_sorted_rev_stable)
qed

theorem stored_tags_top_five_witness:
  "list_all well_formed_tag ex_tags \<and>
   ex_source 0 ''NewArtist'' = Returns (Some [\<lparr>tag_list = Some ex_tags\<rparr>]) \<and>
   fetch_one ex_source ''NewArtist'' (\<lparr>cache = [], requests = []\<rparr>, []) =
     (\<lparr>cache = [(''NewArtist'', [''rock'', ''punk'', ''pop'', ''indie'', ''emo''])],
       requests = [(''NewArtist'', [])]\<rparr>, []) \<and>
   map tag_name (take 5 (py_sorted_rev tag_relevance ex_tags)) =
     [Some ''rock'', Some ''punk'', Some ''pop'', Some ''indie'', Some ''emo'']"
proof -
  have wf: "list_all well_formed_tag ex_tags"
    by (simp add: ex_tags_def well_formed_tag_def)
  then have wf': "\<forall>t \<in> set ex_tags. well_formed_tag t"
    by (simp add: list_all_iff)
  have out: "ex_source (length (requests \<lparr>cache = [], requests = []\<rparr>)) ''NewArtist'' =
               Returns (Some (\<lparr>tag_list = Some ex_tags\<rparr> # []))"
    by (simp add: ex_source_def)
  have s: "map tag_name (take 5 (py_sorted_rev tag_relevance ex_tags)) =
     [Some ''rock'', Some ''punk'', Some ''pop'', Some ''indie'', Some ''emo'']"
    by code_simp
  have tl: "tag_list \<lparr>tag_list = Some ex_tags\<rparr> = Some ex_tags"
    by simp
  from stored_tags_top_five[where tags = ex_tags and src = ex_source
      and st = "\<lparr>cache = [], requests = []\<rparr>" and name = "''NewArtist''"
      and a = "\<lparr>tag_list = Some ex_tags\<rparr>" and rest = "[]" and failed = "[]",
      OF wf' out tl] obtain names where
    f: "fetch_one ex_source ''NewArtist'' (\<lparr>cache = [], requests = []\<rparr>, []) =
          (\<lparr>cache = dict_set ''NewArtist'' names (cache \<lparr>cache = [], requests = []\<rparr>),
            requests = requests \<lparr>cache = [], requests = []\<rparr> @
               [(''NewArtist'', dict_keys (cache \<lparr>cache = [], requests = []\<rparr>))]\<rparr>, [])"
    and n: "map Some names = map tag_name (take 5 (py_sorted_rev tag_relevance ex_tags))"
    by auto
  from n s have "map Some names = map Some [''rock'', ''punk'', ''pop'', ''indie'', ''emo'']"
    by simp
  then have "names = [''rock'', ''punk'', ''pop'', ''indie'', ''emo'']"
    by (simp only: inj_map_eq_map[OF inj_Some])
  with f wf s show ?thesis
    by (simp add: dict_keys_def ex_source_def)
qed


section \<open>Drum and bass selection\<close>

text \<open>
  Lines 74 to 83 of \<open>make_playlists.py\<close> (the first playlist) come before the selection
  and take no part in it.
\<close>

lemma dnb_loop_members:
  "a \<in> dnb_loop gc s \<longleftrightarrow>
     a \<in> s \<or> (a \<notin> DNB_EXCLUDE \<and> (\<exists>genres. (a, genres) \<in> set gc \<and> any_dnb genres))"
  by (induction gc s rule: dnb_loop.induct) auto

text \<open>
  Claim C10. Whatever the genre cache and the events are, every track of the top-100
  drum and bass list has an artist name outside \<open>DNB_EXCLUDE\<close> (and one that is a key
  of the genre cache with a drum and bass tag): a track whose artist is excluded is
  never selected, whatever tags the cache holds for that artist.
\<close>

theorem excluded_artists_never_selected:
  assumes "top_100_dnb gc es = Inr rows" and "(uri, t) \<in> set rows"
  shows "\<exists>a. mp_artist_name t = Some a \<and> a \<notin> DNB_EXCLUDE \<and>
             (\<exists>genres. (a, genres) \<in> set gc \<and> any_dnb genres)"
proof -
  from assms(1) obtain all_tracks where
    rows: "rows = take 100 (py_sorted_rev (\<lambda>x. mp_play_count (snd x))
             (filter (\<lambda>(uri, t). case mp_artist_name t of None \<Rightarrow> False
                                  | Some a \<Rightarrow> a \<in> dnb_loop gc {}) all_tracks))"
    by (auto simp: top_100_dnb_def Let_def split: sum.splits)
  have "set rows \<subseteq> set (py_sorted_rev (\<lambda>x. mp_play_count (snd x))
             (filter (\<lambda>(uri, t). case mp_artist_name t of None \<Rightarrow> False
                                  | Some a \<Rightarrow> a \<in> dnb_loop gc {}) all_tracks))"
    unfolding rows by (rule set_take_subset)
  with assms(2) have "case mp_artist_name t of None \<Rightarrow> False | Some a \<Rightarrow> a \<in> dnb_loop gc {}"
    by (auto simp: py_sorted_rev_def)
  then show ?thesis by (auto simp: dnb_loop_members split: option.splits)
qed

theorem excluded_artists_never_selected_witness:
  "''Lane 8'' \<in> DNB_EXCLUDE \<and> any_dnb [''Drum and Bass''] \<and>
   top_100_dnb ex_genre_cache ex_dnb_events =
     Inr [(''t2'', \<lparr>mp_track_name = ''Rio'', mp_artist_name = Some ''Netsky'',
                   mp_play_count = 1, mp_total_ms = 180000\<rparr>)] \<and>
   (\<exists>a. Some ''Netsky'' = Some a \<and> a \<notin> DNB_EXCLUDE \<and>
        (\<exists>genres. (a, genres) \<in> set ex_genre_cache \<and> any_dnb genres))"
proof -
  have r: "top_100_dnb ex_genre_cache ex_dnb_events =
     Inr [(''t2'', \<lparr>mp_track_name = ''Rio'', mp_artist_name = Some ''Netsky'',
                   mp_play_count = 1, mp_total_ms = 180000\<rparr>)]"
    by code_simp
  have l: "''Lane 8'' \<in> DNB_EXCLUDE"
    by (simp add: DNB_EXCLUDE_def)
  have d: "any_dnb [''Drum and Bass'']"
    by code_simp
  from excluded_artists_never_selected[OF r, of "''t2''"
      "\<lparr>mp_track_name = ''Rio'', mp_artist_name = Some ''Netsky'',
        mp_play_count = 1, mp_total_ms = 180000\<rparr>"] r l d
  show ?thesis by simp
qed

end
